theory Spec2Isabelle
  imports Main
begin

section \<open>Instruction encoding and run-time state\<close>

text \<open>
  An instruction is the number \<open>cond * 100 + opcode\<close>. The opcode table of the
  solvers is \<open>NO = 0, FW = 1, TL = 2, TR = 3, P1 = 4, P2 = 5, P3 = 6, F0 = 7,
  F1 = 8, F2 = 9\<close>; the condition is \<open>0\<close> (none) or a colour \<open>1..3\<close>.
  A program is the array of its function bodies.
\<close>

type_synonym instr = nat
type_synonym program = "instr list list"
type_synonym board = "nat list list"

definition INST_NO :: nat where "INST_NO = 0"
definition INST_FW :: nat where "INST_FW = 1"
definition INST_TL :: nat where "INST_TL = 2"
definition INST_TR :: nat where "INST_TR = 3"
definition INST_P1 :: nat where "INST_P1 = 4"
definition INST_P2 :: nat where "INST_P2 = 5"
definition INST_P3 :: nat where "INST_P3 = 6"
definition INST_F0 :: nat where "INST_F0 = 7"
definition INST_F1 :: nat where "INST_F1 = 8"
definition INST_F2 :: nat where "INST_F2 = 9"

lemmas INST_defs = INST_NO_def INST_FW_def INST_TL_def INST_TR_def INST_P1_def
  INST_P2_def INST_P3_def INST_F0_def INST_F1_def INST_F2_def

text \<open>
  The level as the solvers read it: \<open>levelData.player.x\<close>, \<open>.player.y\<close>,
  \<open>.player.direction\<close>, \<open>.stars\<close> and \<open>.board\<close>. A board cell is \<open>0\<close> for void,
  \<open>1..3\<close> for a colour and \<open>colour + 4\<close> for a coloured cell that holds a star.
\<close>

record level =
  player_x :: int
  player_y :: int
  player_direction :: nat
  level_stars :: int
  level_board :: board

text \<open>
  The local object \<open>state\<close> of \<open>executeProgram\<close>. The fields \<open>x\<close> and \<open>y\<close> are
  named \<open>xpos\<close> and \<open>ypos\<close> here.
\<close>

record state =
  xpos :: int
  ypos :: int
  dir :: nat
  stars :: int
  board :: board
  stack :: "instr list"
  steps :: nat

text \<open>
  The places where the loop of \<open>executeProgram\<close> is left: the four \<open>return\<close>
  statements inside the loop body and the end of the \<open>while\<close> loop.
\<close>

datatype exit =
    RetWon          \<comment> \<open>\<open>if (state.stars === 0) return {solved: true, steps}\<close>\<close>
  | RetOverflow     \<comment> \<open>\<open>if (state.stack.length > 100) return {solved: false}\<close>\<close>
  | RetLoop         \<comment> \<open>\<open>FinalSolver\<close> only: the state key is in the cache\<close>
  | RetOutOfBounds  \<comment> \<open>forward: destination outside the 16 x 16 grid\<close>
  | RetVoid         \<comment> \<open>forward: destination cell is 0\<close>
  | LoopEnd         \<comment> \<open>the loop condition failed\<close>

text \<open>
  The object a run returns: \<open>{solved: true, steps: n}\<close> or \<open>{solved: false}\<close>, and
  from \<open>FinalSolver.executeWithLoopDetection\<close> also
  \<open>{solved: false, loopDetected: true}\<close>.
\<close>

datatype run_result = Solved nat | Unsolved | LoopDetected

section \<open>The virtual machine of \<open>Solver.executeProgram\<close>\<close>

definition dx :: "int list" where "dx = [-1, 0, 1, 0]"
definition dy :: "int list" where "dy = [0, -1, 0, 1]"

definition cell :: "board \<Rightarrow> int \<Rightarrow> int \<Rightarrow> nat" where
  "cell b cx cy = b ! nat cy ! nat cx"

definition set_cell :: "board \<Rightarrow> int \<Rightarrow> int \<Rightarrow> nat \<Rightarrow> board" where
  "set_cell b cx cy v = b[nat cy := (b ! nat cy)[nat cx := v]]"

text \<open>\<open>case INST.FW\<close>: the state as the code leaves it, and the exit taken if any.\<close>

definition forward :: "state \<Rightarrow> state \<times> exit option" where
  "forward s =
     (let newX = xpos s + dx ! dir s;
          newY = ypos s + dy ! dir s
      in if newX < 0 \<or> newX \<ge> 16 \<or> newY < 0 \<or> newY \<ge> 16 then (s, Some RetOutOfBounds)
         else let targetCell = cell (board s) newX newY
              in if targetCell = 0 then (s, Some RetVoid)
                 else let s1 = s\<lparr>xpos := newX, ypos := newY\<rparr>
                      in if targetCell > 3
                         then (s1\<lparr>board := set_cell (board s1) newX newY (cell (board s1) newX newY - 4),
                                  stars := stars s1 - 1\<rparr>, None)
                         else (s1, None))"

text \<open>\<open>case INST.P1 .. P3\<close>: recolour the current cell, keeping its star.\<close>

definition paint :: "nat \<Rightarrow> state \<Rightarrow> state" where
  "paint c s =
     s\<lparr>board := set_cell (board s) (xpos s) (ypos s)
                  (c + (if cell (board s) (xpos s) (ypos s) > 3 then 4 else 0))\<rparr>"

text \<open>
  \<open>case INST.F0 .. F2\<close>: \<open>programFunctions[funcIndex]\<close> is \<open>undefined\<close> past the end
  of the array; an array, also the empty one, is truthy.
\<close>

definition call :: "program \<Rightarrow> nat \<Rightarrow> state \<Rightarrow> state" where
  "call prog funcIndex s =
     (if funcIndex < length prog then s\<lparr>stack := prog ! funcIndex @ stack s\<rparr> else s)"

definition exec_opcode :: "program \<Rightarrow> nat \<Rightarrow> state \<Rightarrow> state \<times> exit option" where
  "exec_opcode prog opcode s =
     (if opcode = INST_FW then forward s
      else if opcode = INST_TL then (s\<lparr>dir := (dir s + 3) mod 4\<rparr>, None)
      else if opcode = INST_TR then (s\<lparr>dir := (dir s + 1) mod 4\<rparr>, None)
      else if opcode = INST_P1 then (paint 1 s, None)
      else if opcode = INST_P2 then (paint 2 s, None)
      else if opcode = INST_P3 then (paint 3 s, None)
      else if opcode = INST_F0 \<or> opcode = INST_F1 \<or> opcode = INST_F2
        then (call prog (opcode - INST_F0) s, None)
      else (s, None))"

text \<open>
  One pass through the loop body. On an empty array \<open>shift()\<close> gives \<open>undefined\<close>,
  which decodes to no condition and no known opcode (the loop never gets there: its
  condition asks for a non-empty stack).
\<close>

definition body :: "program \<Rightarrow> state \<Rightarrow> state \<times> exit option" where
  "body prog s =
     (if stars s = 0 then (s, Some RetWon)
      else if length (stack s) > 100 then (s, Some RetOverflow)
      else (case stack s of
              [] \<Rightarrow> (s\<lparr>steps := steps s + 1\<rparr>, None)
            | instr # rest \<Rightarrow>
                let s1 = s\<lparr>stack := rest, steps := steps s + 1\<rparr>;
                    cond = instr div 100;
                    opcode = instr mod 100
                in if cond > 0 \<and> cell (board s1) (xpos s1) (ypos s1) mod 4 \<noteq> cond
                   then (s1, None)
                   else exec_opcode prog opcode s1))"

lemma forward_steps: "steps (fst (forward s)) = steps s"
  by (simp add: forward_def Let_def)

lemma exec_opcode_steps: "steps (fst (exec_opcode prog opcode s)) = steps s"
  by (simp add: exec_opcode_def forward_steps paint_def call_def)

lemma body_steps: "body prog s = (s', None) \<Longrightarrow> steps s' = Suc (steps s)"
  unfolding body_def
  by (auto simp: Let_def split: if_splits list.splits dest: arg_cong [where f = "\<lambda>p. steps (fst p)"]
      simp: exec_opcode_steps)

function loop :: "program \<Rightarrow> nat \<Rightarrow> state \<Rightarrow> state \<times> exit" where
  "loop prog maxSteps s =
     (if steps s < maxSteps \<and> stack s \<noteq> [] then
        (case body prog s of
           (s', Some e) \<Rightarrow> (s', e)
         | (s', None) \<Rightarrow> loop prog maxSteps s')
      else (s, LoopEnd))"
  by pat_completeness auto
termination
  by (relation "measure (\<lambda>(prog, maxSteps, s). maxSteps - steps s)")
     (auto dest!: sym [of "(_, _)" "body _ _"] body_steps)

declare loop.simps [simp del]

definition init_state :: "level \<Rightarrow> program \<Rightarrow> state" where
  "init_state levelData programFunctions =
     \<lparr>xpos = player_x levelData, ypos = player_y levelData,
      dir = player_direction levelData, stars = level_stars levelData,
      board = level_board levelData,
      stack = (if 0 < length programFunctions then programFunctions ! 0 else []),
      steps = 0\<rparr>"

text \<open>What the function returns at each exit; after the loop the stars are read again.\<close>

definition result_of :: "state \<times> exit \<Rightarrow> run_result" where
  "result_of r =
     (case r of (s, e) \<Rightarrow>
        (case e of
           RetWon \<Rightarrow> Solved (steps s)
         | RetOverflow \<Rightarrow> Unsolved
         | RetLoop \<Rightarrow> LoopDetected
         | RetOutOfBounds \<Rightarrow> Unsolved
         | RetVoid \<Rightarrow> Unsolved
         | LoopEnd \<Rightarrow> if stars s = 0 then Solved (steps s) else Unsolved))"

definition executeProgram :: "level \<Rightarrow> program \<Rightarrow> nat \<Rightarrow> run_result" where
  "executeProgram levelData programFunctions maxSteps =
     result_of (loop programFunctions maxSteps (init_state levelData programFunctions))"


section \<open>The interactive engine \<open>GameEngine\<close>\<close>

text \<open>Decimal rendering of a number inside a template string.\<close>

definition digit_char :: "nat \<Rightarrow> char" where
  "digit_char n = ''0123456789'' ! n"

function show_nat :: "nat \<Rightarrow> string" where
  "show_nat n = (if n < 10 then [digit_char n] else show_nat (n div 10) @ [digit_char (n mod 10)])"
  by pat_completeness auto
termination
  by (relation "measure id") auto

declare show_nat.simps [simp del]

definition show_int :: "int \<Rightarrow> string" where
  "show_int i = (if i < 0 then CHR ''-'' # show_nat (nat (- i)) else show_nat (nat i))"

datatype status = Ready | Running | Won | Failed

record gstate = state +
  status :: status
  message :: string

text \<open>
  The fields of the engine that \<open>step\<close> reads: \<open>this.state\<close> (\<open>null\<close> until a level is
  loaded) and \<open>this.programFunctions\<close> (\<open>undefined\<close> until a program is loaded).
\<close>

record engine =
  engine_state :: "gstate option"
  engine_programFunctions :: "program option"

definition moveForward :: "gstate \<Rightarrow> gstate \<times> bool" where
  "moveForward s =
     (let newX = xpos s + dx ! dir s;
          newY = ypos s + dy ! dir s
      in if newX < 0 \<or> newX \<ge> 16 \<or> newY < 0 \<or> newY \<ge> 16
         then (s\<lparr>message := ''Out of bounds''\<rparr>, False)
         else let targetCell = cell (board s) newX newY
              in if targetCell = 0 then (s\<lparr>message := ''Fell into void''\<rparr>, False)
                 else let s1 = s\<lparr>xpos := newX, ypos := newY\<rparr>
                      in if targetCell > 3
                         then let s2 = s1\<lparr>board := set_cell (board s1) newX newY
                                                    (cell (board s1) newX newY - 4),
                                         stars := stars s1 - 1\<rparr>
                              in (s2\<lparr>message := ''Moved forward and collected star! (''
                                       @ show_int (stars s2) @ '' remaining)''\<rparr>, True)
                         else (s1\<lparr>message := ''Moved forward''\<rparr>, True))"

definition paintTile :: "nat \<Rightarrow> gstate \<Rightarrow> gstate \<times> bool" where
  "paintTile color s =
     (let hasStar = cell (board s) (xpos s) (ypos s) > 3
      in (s\<lparr>board := set_cell (board s) (xpos s) (ypos s) (color + (if hasStar then 4 else 0)),
            message := ''Painted tile color '' @ show_nat color\<rparr>, True))"

definition callFunction :: "program option \<Rightarrow> nat \<Rightarrow> gstate \<Rightarrow> gstate \<times> bool" where
  "callFunction pf funcIndex s =
     (case pf of
        None \<Rightarrow> (s\<lparr>message := ''Function F'' @ show_nat funcIndex @ '' not defined''\<rparr>, False)
      | Some fs \<Rightarrow>
          if \<not> funcIndex < length fs
          then (s\<lparr>message := ''Function F'' @ show_nat funcIndex @ '' not defined''\<rparr>, False)
          else let func = fs ! funcIndex
               in (s\<lparr>stack := func @ stack s,
                     message := ''Called F'' @ show_nat funcIndex @ '' (prepended ''
                                @ show_nat (length func) @ '' instructions)''\<rparr>, True))"

definition executeOpcode :: "program option \<Rightarrow> nat \<Rightarrow> gstate \<Rightarrow> gstate \<times> bool" where
  "executeOpcode pf opcode s =
     (if opcode = INST_NO then (s\<lparr>message := ''NO operation''\<rparr>, True)
      else if opcode = INST_FW then moveForward s
      else if opcode = INST_TL then (s\<lparr>dir := (dir s + 3) mod 4, message := ''Turned left''\<rparr>, True)
      else if opcode = INST_TR then (s\<lparr>dir := (dir s + 1) mod 4, message := ''Turned right''\<rparr>, True)
      else if opcode = INST_P1 then paintTile 1 s
      else if opcode = INST_P2 then paintTile 2 s
      else if opcode = INST_P3 then paintTile 3 s
      else if opcode = INST_F0 \<or> opcode = INST_F1 \<or> opcode = INST_F2
        then callFunction pf (opcode - INST_F0) s
      else (s\<lparr>message := ''Unknown opcode: '' @ show_nat opcode\<rparr>, False))"

text \<open>\<open>GameEngine.step\<close>: the engine after the call, and the boolean it returns.\<close>

definition step :: "engine \<Rightarrow> engine \<times> bool" where
  "step g =
     (case engine_state g of
        None \<Rightarrow> (g, False)
      | Some s \<Rightarrow>
          if status s = Won \<or> status s = Failed then (g, False)
          else if stars s = 0
            then (g\<lparr>engine_state := Some (s\<lparr>status := Won,
                     message := ''Victory! Solved in '' @ show_nat (steps s) @ '' steps''\<rparr>)\<rparr>, False)
          else if length (stack s) = 0
            then (g\<lparr>engine_state := Some (s\<lparr>status := Failed,
                     message := ''Program ended without collecting all stars''\<rparr>)\<rparr>, False)
          else if length (stack s) > 100
            then (g\<lparr>engine_state := Some (s\<lparr>status := Failed,
                     message := ''Stack overflow (>100 instructions)''\<rparr>)\<rparr>, False)
          else
            let instr = hd (stack s);
                s1 = s\<lparr>stack := tl (stack s), steps := steps s + 1\<rparr>;
                cond = instr div 100;
                opcode = instr mod 100;
                tileColor = cell (board s1) (xpos s1) (ypos s1) mod 4
            in if cond > 0 \<and> tileColor \<noteq> cond
               then (g\<lparr>engine_state := Some (s1\<lparr>message := ''Condition C'' @ show_nat cond
                        @ '' failed (on color '' @ show_nat tileColor @ '')''\<rparr>)\<rparr>, True)
               else (case executeOpcode (engine_programFunctions g) opcode s1 of
                       (s2, result) \<Rightarrow>
                         if \<not> result then (g\<lparr>engine_state := Some (s2\<lparr>status := Failed\<rparr>)\<rparr>, False)
                         else (g\<lparr>engine_state := Some s2\<rparr>, True)))"

text \<open>
  The constructor, \<open>loadLevel\<close> (which stores the level and calls \<open>reset\<close>) and
  \<open>loadProgram\<close>, as far as they set the two fields above.
\<close>

definition new_engine :: engine where
  "new_engine = \<lparr>engine_state = None, engine_programFunctions = None\<rparr>"

definition loadLevel :: "level \<Rightarrow> engine \<Rightarrow> engine" where
  "loadLevel levelData g =
     g\<lparr>engine_state := Some
        \<lparr>xpos = player_x levelData, ypos = player_y levelData,
         dir = player_direction levelData, stars = level_stars levelData,
         board = level_board levelData, stack = [], steps = 0,
         status = Ready, message = []\<rparr>\<rparr>"

definition loadProgram :: "program \<Rightarrow> engine \<Rightarrow> engine" where
  "loadProgram pf g =
     (case engine_state g of
        None \<Rightarrow> g
      | Some s \<Rightarrow>
          g\<lparr>engine_state := Some (s\<lparr>stack := (if 0 < length pf then pf ! 0 else []),
                                     steps := 0, status := Ready,
                                     message := ''Program loaded''\<rparr>),
            engine_programFunctions := Some pf\<rparr>)"

section \<open>\<open>FinalSolver.executeWithLoopDetection\<close> and its state key\<close>

text \<open>\<open>Array.prototype.join(',')\<close> on the rendered elements.\<close>

fun join_comma :: "string list \<Rightarrow> string" where
  "join_comma [] = []"
| "join_comma [a] = a"
| "join_comma (a # b # rest) = a @ '','' @ join_comma (b # rest)"

text \<open>
  \<open>hashBoard\<close>: the cells greater than 0 in row order, each written as column, row and
  value with nothing in between.
\<close>

definition hashRow :: "nat \<Rightarrow> nat list \<Rightarrow> string" where
  "hashRow ry row =
     concat (map (\<lambda>(cx, v). if v > 0 then show_nat cx @ show_nat ry @ show_nat v else [])
                 (zip [0 ..< length row] row))"

definition hashBoard :: "board \<Rightarrow> string" where
  "hashBoard b = concat (map (\<lambda>(ry, row). hashRow ry row) (zip [0 ..< length b] b))"

definition hashState :: "state \<Rightarrow> string" where
  "hashState s =
     (let stackPreview = join_comma (map show_nat (take 5 (stack s)));
          boardHash = hashBoard (board s)
      in show_int (xpos s) @ '','' @ show_int (ypos s) @ '','' @ show_nat (dir s) @ '',''
         @ show_int (stars s) @ '','' @ stackPreview @ '','' @ boardHash)"

text \<open>The call of \<open>FinalSolver\<close> and \<open>ConstraintSolver\<close> also asks for a non-empty body.\<close>

definition call_nonempty :: "program \<Rightarrow> nat \<Rightarrow> state \<Rightarrow> state" where
  "call_nonempty prog funcIndex s =
     (if funcIndex < length prog \<and> length (prog ! funcIndex) > 0
      then s\<lparr>stack := prog ! funcIndex @ stack s\<rparr> else s)"

definition exec_opcode_ne :: "program \<Rightarrow> nat \<Rightarrow> state \<Rightarrow> state \<times> exit option" where
  "exec_opcode_ne prog opcode s =
     (if opcode = INST_FW then forward s
      else if opcode = INST_TL then (s\<lparr>dir := (dir s + 3) mod 4\<rparr>, None)
      else if opcode = INST_TR then (s\<lparr>dir := (dir s + 1) mod 4\<rparr>, None)
      else if opcode = INST_P1 then (paint 1 s, None)
      else if opcode = INST_P2 then (paint 2 s, None)
      else if opcode = INST_P3 then (paint 3 s, None)
      else if opcode = INST_F0 \<or> opcode = INST_F1 \<or> opcode = INST_F2
        then (call_nonempty prog (opcode - INST_F0) s, None)
      else (s, None))"

text \<open>
  One pass through the loop body of \<open>executeWithLoopDetection\<close>; \<open>this.stateCache\<close> is
  the list of the keys stored so far.
\<close>

definition body_ld :: "program \<Rightarrow> string list \<times> state \<Rightarrow> (string list \<times> state) \<times> exit option" where
  "body_ld prog cs =
     (case cs of (cache, s) \<Rightarrow>
        if stars s = 0 then ((cache, s), Some RetWon)
        else let stateKey = hashState s
             in if stateKey \<in> set cache then ((cache, s), Some RetLoop)
                else let cache1 = stateKey # cache
                     in (case stack s of
                           [] \<Rightarrow> ((cache1, s\<lparr>steps := steps s + 1\<rparr>), None)
                         | instr # rest \<Rightarrow>
                             let s1 = s\<lparr>stack := rest, steps := steps s + 1\<rparr>;
                                 cond = instr div 100;
                                 opcode = instr mod 100
                             in if cond > 0 \<and> cell (board s1) (xpos s1) (ypos s1) mod 4 \<noteq> cond
                                then ((cache1, s1), None)
                                else (case exec_opcode_ne prog opcode s1 of
                                        (s2, e) \<Rightarrow> ((cache1, s2), e))))"

lemma exec_opcode_ne_steps: "steps (fst (exec_opcode_ne prog opcode s)) = steps s"
  by (simp add: exec_opcode_ne_def forward_steps paint_def call_nonempty_def)

lemma body_ld_steps: "body_ld prog (c, s) = ((c', s'), None) \<Longrightarrow> steps s' = Suc (steps s)"
  unfolding body_ld_def
  by (auto simp: Let_def split: if_splits list.splits prod.splits
      dest: arg_cong [where f = "\<lambda>p. steps (fst p)"] simp: exec_opcode_ne_steps)

function loop_ld :: "program \<Rightarrow> nat \<Rightarrow> string list \<times> state \<Rightarrow> (string list \<times> state) \<times> exit" where
  "loop_ld prog maxSteps cs =
     (if steps (snd cs) < maxSteps \<and> stack (snd cs) \<noteq> [] \<and> length (stack (snd cs)) \<le> 100 then
        (case body_ld prog cs of
           (cs', Some e) \<Rightarrow> (cs', e)
         | (cs', None) \<Rightarrow> loop_ld prog maxSteps cs')
      else (cs, LoopEnd))"
  by pat_completeness auto
termination
  by (relation "measure (\<lambda>(prog, maxSteps, cs). maxSteps - steps (snd cs))")
     (auto dest!: sym [of "(_, _)" "body_ld _ _"] body_ld_steps)

declare loop_ld.simps [simp del]

text \<open>The cache is cleared first; the default of \<open>maxSteps\<close> is 1000.\<close>

definition executeWithLoopDetection :: "level \<Rightarrow> program \<Rightarrow> nat \<Rightarrow> run_result" where
  "executeWithLoopDetection levelData programFunctions maxSteps =
     (case loop_ld programFunctions maxSteps ([], init_state levelData programFunctions) of
        ((cache, s), e) \<Rightarrow> result_of (s, e))"

section \<open>Constraint propagation of the candidate generators\<close>

text \<open>
  The record that \<open>ConstraintSolver.fillFunction\<close> starts from is
  \<open>{leftTurns: 0, rightTurns: 0, lastPaint: null, terminated: false}\<close>; the fields
  \<open>noLeftTurn\<close> and \<open>noRightTurn\<close> are absent until set, and an absent field reads as
  false.
\<close>

record constraints =
  leftTurns :: nat
  rightTurns :: nat
  lastPaint :: "nat option"
  terminated :: bool
  noLeftTurn :: bool
  noRightTurn :: bool

definition initial_constraints :: constraints where
  "initial_constraints =
     \<lparr>leftTurns = 0, rightTurns = 0, lastPaint = None, terminated = False,
      noLeftTurn = False, noRightTurn = False\<rparr>"

text \<open>
  \<open>ConstraintSolver.propagateConstraints\<close>. It never returns \<open>null\<close>; its parameters
  \<open>pos\<close> and \<open>maxLen\<close> are not read.
\<close>

definition propagateConstraints :: "constraints \<Rightarrow> instr \<Rightarrow> nat \<Rightarrow> nat \<Rightarrow> constraints" where
  "propagateConstraints c instruction pos maxLen =
     (let cond = instruction div 100;
          opcode = instruction mod 100;
          c1 = (if cond = 0 \<and> (opcode = INST_F0 \<or> opcode = INST_F1 \<or> opcode = INST_F2)
                then c\<lparr>terminated := True\<rparr> else c);
          c2 = (if opcode = INST_P1 then c1\<lparr>lastPaint := Some 1\<rparr> else c1);
          c3 = (if opcode = INST_P2 then c2\<lparr>lastPaint := Some 2\<rparr> else c2);
          c4 = (if opcode = INST_P3 then c3\<lparr>lastPaint := Some 3\<rparr> else c3)
      in if opcode = INST_TL then
           let c5 = c4\<lparr>leftTurns := leftTurns c4 + 1, rightTurns := 0\<rparr>
           in if leftTurns c5 \<ge> 2 then c5\<lparr>noRightTurn := True\<rparr> else c5
         else if opcode = INST_TR then
           let c5 = c4\<lparr>rightTurns := rightTurns c4 + 1, leftTurns := 0\<rparr>
           in if rightTurns c5 \<ge> 2 then c5\<lparr>noLeftTurn := True\<rparr> else c5
         else c4\<lparr>leftTurns := 0, rightTurns := 0, noLeftTurn := False, noRightTurn := False\<rparr>)"

definition getValidInstructions :: "constraints \<Rightarrow> instr list \<Rightarrow> instr list" where
  "getValidInstructions c allInstructions =
     (if terminated c then []
      else let valid = allInstructions;
               valid1 = (if noLeftTurn c then filter (\<lambda>i. i mod 100 \<noteq> INST_TL) valid else valid);
               valid2 = (if noRightTurn c then filter (\<lambda>i. i mod 100 \<noteq> INST_TR) valid1 else valid1)
           in valid2)"

text \<open>
  \<open>FinalSolver.isValidSequence\<close>, called once position \<open>pos\<close> of the slot has been
  written; its parameters \<open>funcIdx\<close> and \<open>funcLengths\<close> are not read.
\<close>

definition isValidSequence :: "instr list \<Rightarrow> nat \<Rightarrow> bool" where
  "isValidSequence sequence pos =
     (if pos = 0 then True
      else let prev = sequence ! (pos - 1);
               curr = sequence ! pos;
               prevOp = prev mod 100;
               currOp = curr mod 100
           in if prev div 100 = 0 \<and> (prevOp = INST_F0 \<or> prevOp = INST_F1 \<or> prevOp = INST_F2)
              then False
              else if pos \<ge> 2 \<and> sequence ! (pos - 2) mod 100 = INST_TL \<and> prevOp = INST_TL
                      \<and> currOp = INST_TR then False
              else if pos \<ge> 2 \<and> sequence ! (pos - 2) mod 100 = INST_TR \<and> prevOp = INST_TR
                      \<and> currOp = INST_TL then False
              else True)"

section \<open>Well-formed states and an example level\<close>

text \<open>
  The solvers read the board as a 16 x 16 grid (the bounds test of the forward move is
  written with the constant 16) and index \<open>dx\<close> and \<open>dy\<close> with the direction; the
  level loader hands over levels of this shape. The properties below are stated for
  states of this shape, where every array read of the code is in range.
\<close>

definition wf_state :: "'a state_scheme \<Rightarrow> bool" where
  "wf_state s \<longleftrightarrow> 0 \<le> xpos s \<and> xpos s < 16 \<and> 0 \<le> ypos s \<and> ypos s < 16 \<and> dir s < 4
     \<and> length (board s) = 16 \<and> list_all (\<lambda>row. length row = 16) (board s)"

definition wf_level :: "level \<Rightarrow> bool" where
  "wf_level lv \<longleftrightarrow> 0 \<le> player_x lv \<and> player_x lv < 16 \<and> 0 \<le> player_y lv \<and> player_y lv < 16
     \<and> player_direction lv < 4
     \<and> length (level_board lv) = 16 \<and> list_all (\<lambda>row. length row = 16) (level_board lv)"

text \<open>
  A level used for the concrete instances: a corridor of colour 1 from column 3 to
  column 8 of row 5, a star on its last cell, the robot on its first cell facing right
  (direction 2).
\<close>

definition void_row :: "nat list" where
  "void_row = [0,0,0,0,0,0,0,0,0,0,0,0,0,0,0,0]"

definition corridor_board :: board where
  "corridor_board =
     [void_row, void_row, void_row, void_row, void_row,
      [0,0,0,1,1,1,1,1,5,0,0,0,0,0,0,0],
      void_row, void_row, void_row, void_row, void_row,
      void_row, void_row, void_row, void_row, void_row]"

definition corridor_level :: level where
  "corridor_level =
     \<lparr>player_x = 3, player_y = 5, player_direction = 2, level_stars = 1,
      level_board = corridor_board\<rparr>"

section \<open>The termination conditions in the words of the specification\<close>

text \<open>
  The outcome type of the specification, and its termination conditions in their stated
  priority order: remaining stars zero, stack empty, stack longer than the ceiling of
  100, step counter at the cap. \<open>None\<close> means that the step goes on to pop an
  instruction.
\<close>

datatype run_outcome = OutSolved nat | OutDied | OutExhausted | OutStepLimitReached


text \<open>What the object returned by \<open>executeProgram\<close> keeps of an outcome.\<close>

definition outcome_result :: "run_outcome \<Rightarrow> run_result" where
  "outcome_result out = (case out of OutSolved n \<Rightarrow> Solved n | _ \<Rightarrow> Unsolved)"

text \<open>
  The outcome of the specification for a finished run, read off the place where the
  loop was left and the state there: a \<open>return\<close> from the forward move, the stack
  ceiling or the loop detector is a death; when the loop condition fails with stars left,
  the stack is empty or else the step cap was reached.
\<close>

definition spec_outcome :: "state \<times> exit \<Rightarrow> run_outcome" where
  "spec_outcome r =
     (case r of (s, e) \<Rightarrow>
        (case e of
           RetWon \<Rightarrow> OutSolved (steps s)
         | RetOverflow \<Rightarrow> OutDied
         | RetLoop \<Rightarrow> OutDied
         | RetOutOfBounds \<Rightarrow> OutDied
         | RetVoid \<Rightarrow> OutDied
         | LoopEnd \<Rightarrow> if stars s = 0 then OutSolved (steps s)
                      else if stack s = [] then OutExhausted
                      else OutStepLimitReached))"



section \<open>The synthesis engine of \<open>ConstraintSolver\<close>\<close>

text \<open>
  The names a level lists in \<open>activeInstructions\<close>, and the two tables \<open>INST\<close> and
  \<open>COND\<close> of the solvers; a name missing from a table reads as \<open>undefined\<close>, here
  \<open>None\<close>.
\<close>

datatype instr_name =
  Name_NO | Name_FW | Name_TL | Name_TR | Name_P1 | Name_P2 | Name_P3
  | Name_F0 | Name_F1 | Name_F2 | Name_C1 | Name_C2 | Name_C3

fun INST :: "instr_name \<Rightarrow> nat option" where
  "INST Name_NO = Some 0"
| "INST Name_FW = Some 1"
| "INST Name_TL = Some 2"
| "INST Name_TR = Some 3"
| "INST Name_P1 = Some 4"
| "INST Name_P2 = Some 5"
| "INST Name_P3 = Some 6"
| "INST Name_F0 = Some 7"
| "INST Name_F1 = Some 8"
| "INST Name_F2 = Some 9"
| "INST _ = None"

fun COND :: "instr_name \<Rightarrow> nat option" where
  "COND Name_C1 = Some 1"
| "COND Name_C2 = Some 2"
| "COND Name_C3 = Some 3"
| "COND _ = None"

text \<open>\<open>[...new Set(result)]\<close>: the first occurrence of each value, in order.\<close>

fun uniq :: "'a list \<Rightarrow> 'a list" where
  "uniq [] = []"
| "uniq (a # as) = a # uniq (filter (\<lambda>b. b \<noteq> a) as)"

definition buildInstructions :: "instr_name list \<Rightarrow> instr list" where
  "buildInstructions activeInstructions =
     uniq (concat (map (\<lambda>name.
        case INST name of
          Some code \<Rightarrow> [code]
        | None \<Rightarrow>
            (case COND name of
               Some condNum \<Rightarrow>
                 concat (map (\<lambda>opName. case INST opName of
                                           Some code \<Rightarrow> [condNum * 100 + code]
                                         | None \<Rightarrow> [])
                             activeInstructions)
             | None \<Rightarrow> []))
        activeInstructions))"

text \<open>
  The array \<open>program\<close> of \<open>tryBuildProgram\<close> is shared by the whole search and
  written in place: \<open>program[funcIdx][pos] = instr\<close> before the recursive call and
  \<open>program[funcIdx][pos] = null\<close> after it. The entries are therefore instructions or
  \<open>null\<close>, and a function that was filled before keeps its \<open>null\<close> entries when it
  is tried again with a smaller length. An assignment at the end of an array extends it.
\<close>

type_synonym buffer = "instr option list list"

definition assign :: "'a option list \<Rightarrow> nat \<Rightarrow> 'a option \<Rightarrow> 'a option list" where
  "assign xs i v =
     (if i < length xs then xs[i := v] else xs @ replicate (i - length xs) None @ [v])"

text \<open>
  What the search changes as it goes: the shared array, the counter \<open>tested\<close> of
  \<open>solve\<close>, and the number of times the clock has been read. A search returns the
  solved program with its step count if it found one, and the state it leaves.
\<close>

record search_state =
  ss_program :: buffer
  ss_tested :: nat
  ss_reads :: nat

definition set_slot :: "nat \<Rightarrow> nat \<Rightarrow> instr option \<Rightarrow> search_state \<Rightarrow> search_state" where
  "set_slot funcIdx pos v st =
     st\<lparr>ss_program := (ss_program st)[funcIdx := assign (ss_program st ! funcIdx) pos v]\<rparr>"

type_synonym found = "buffer \<times> nat"
type_synonym search = "search_state \<Rightarrow> found option \<times> search_state"

lemma length_getValidInstructions:
  "length (getValidInstructions c allInstructions) \<le> length allInstructions"
  by (simp add: getValidInstructions_def Let_def le_trans [OF length_filter_le length_filter_le])

text \<open>
  \<open>fillFunction\<close>: the inner \<open>search(pos, constraints)\<close> and its loop over the
  allowed instructions; \<open>onComplete\<close> is the continuation passed by the caller. The
  result of \<open>propagateConstraints\<close> is never \<open>null\<close>, so the recursive call is
  always made.
\<close>

function fill_search :: "search \<Rightarrow> nat \<Rightarrow> nat \<Rightarrow> instr list \<Rightarrow> nat \<Rightarrow> constraints \<Rightarrow> search"
  and fill_for :: "search \<Rightarrow> nat \<Rightarrow> nat \<Rightarrow> instr list \<Rightarrow> nat \<Rightarrow> constraints \<Rightarrow> instr list \<Rightarrow> search"
where
  "fill_search onComplete funcIdx targetLen allInstructions pos c st =
     (if pos \<ge> targetLen then onComplete st
      else fill_for onComplete funcIdx targetLen allInstructions pos c
             (getValidInstructions c allInstructions) st)"
| "fill_for onComplete funcIdx targetLen allInstructions pos c [] st = (None, st)"
| "fill_for onComplete funcIdx targetLen allInstructions pos c (instr # others) st =
     (let st1 = set_slot funcIdx pos (Some instr) st;
          newConstraints = propagateConstraints c instr pos targetLen
      in case fill_search onComplete funcIdx targetLen allInstructions (pos + 1) newConstraints st1 of
           (Some r, st2) \<Rightarrow> (Some r, st2)
         | (None, st2) \<Rightarrow>
             fill_for onComplete funcIdx targetLen allInstructions pos c others
               (set_slot funcIdx pos None st2))"
  by pat_completeness auto
termination
  by (relation "inv_image (less_than <*lex*> less_than)
        (\<lambda>a. case a of
           Inl (k, f, L, allI, pos, c, st) \<Rightarrow> (L - pos, if pos \<ge> L then 0 else length allI + 2)
         | Inr (k, f, L, allI, pos, c, l, st) \<Rightarrow> (L - pos, length l + 1))")
     (auto simp add: length_getValidInstructions le_imp_less_Suc)


declare fill_search.simps [simp del]

definition fillFunction :: "search \<Rightarrow> nat \<Rightarrow> nat \<Rightarrow> instr list \<Rightarrow> search" where
  "fillFunction onComplete funcIdx targetLen allInstructions st =
     (if targetLen = 0 then onComplete st
      else fill_search onComplete funcIdx targetLen allInstructions 0 initial_constraints st)"

text \<open>
  \<open>tryBuildProgram\<close>: the inner \<open>search(funcIdx, usedTotal)\<close> and its loop over
  the lengths \<open>0 .. maxLen\<close>; \<open>test\<close> stands for the progress callback followed by
  the run of the program, which happens only when the total is exactly \<open>targetTotal\<close>.
\<close>

function tb_search :: "search \<Rightarrow> nat list \<Rightarrow> nat list \<Rightarrow> instr list \<Rightarrow> nat \<Rightarrow> nat \<Rightarrow> nat \<Rightarrow> search"
  and tb_for :: "search \<Rightarrow> nat list \<Rightarrow> nat list \<Rightarrow> instr list \<Rightarrow> nat \<Rightarrow> nat \<Rightarrow> nat \<Rightarrow> nat \<Rightarrow> nat \<Rightarrow> search"
where
  "tb_search test funcLengths funcOrder instructions targetTotal funcIdx usedTotal st =
     (if funcIdx \<ge> length funcOrder then
        (if usedTotal = targetTotal then test st else (None, st))
      else
        let realIdx = funcOrder ! funcIdx;
            maxLen = min (funcLengths ! realIdx) (targetTotal - usedTotal)
        in tb_for test funcLengths funcOrder instructions targetTotal funcIdx usedTotal 0 maxLen st)"
| "tb_for test funcLengths funcOrder instructions targetTotal funcIdx usedTotal len maxLen st =
     (if len \<le> maxLen then
        (case fillFunction
                (tb_search test funcLengths funcOrder instructions targetTotal (funcIdx + 1)
                   (usedTotal + len))
                (funcOrder ! funcIdx) len instructions st of
           (Some r, st1) \<Rightarrow> (Some r, st1)
         | (None, st1) \<Rightarrow>
             tb_for test funcLengths funcOrder instructions targetTotal funcIdx usedTotal
               (len + 1) maxLen st1)
      else (None, st))"
  by pat_completeness auto
termination
  by (relation "inv_image (less_than <*lex*> less_than)
        (\<lambda>a. case a of
           Inl (t, fl, fo, ins, tt, fi, u, st) \<Rightarrow>
             (if fi \<ge> length fo then 0 else 2 * (length fo - fi) + 1, 0)
         | Inr (t, fl, fo, ins, tt, fi, u, len, ml, st) \<Rightarrow> (2 * (length fo - fi), Suc ml - len))")
     auto


declare tb_search.simps [simp del] tb_for.simps [simp del]

text \<open>
  \<open>ConstraintSolver.executeProgram\<close> is the loop of \<open>Solver.executeProgram\<close> with
  the call guarded by \<open>programFunctions[funcIndex].length > 0\<close>.
\<close>

definition body_ne :: "program \<Rightarrow> state \<Rightarrow> state \<times> exit option" where
  "body_ne prog s =
     (if stars s = 0 then (s, Some RetWon)
      else if length (stack s) > 100 then (s, Some RetOverflow)
      else (case stack s of
              [] \<Rightarrow> (s\<lparr>steps := steps s + 1\<rparr>, None)
            | instr # rest \<Rightarrow>
                let s1 = s\<lparr>stack := rest, steps := steps s + 1\<rparr>;
                    cond = instr div 100;
                    opcode = instr mod 100
                in if cond > 0 \<and> cell (board s1) (xpos s1) (ypos s1) mod 4 \<noteq> cond
                   then (s1, None)
                   else exec_opcode_ne prog opcode s1))"

lemma body_ne_steps: "body_ne prog s = (s', None) \<Longrightarrow> steps s' = Suc (steps s)"
  unfolding body_ne_def
  by (auto simp: Let_def split: if_splits list.splits dest: arg_cong [where f = "\<lambda>p. steps (fst p)"]
      simp: exec_opcode_ne_steps)

function loop_ne :: "program \<Rightarrow> nat \<Rightarrow> state \<Rightarrow> state \<times> exit" where
  "loop_ne prog maxSteps s =
     (if steps s < maxSteps \<and> stack s \<noteq> [] then
        (case body_ne prog s of
           (s', Some e) \<Rightarrow> (s', e)
         | (s', None) \<Rightarrow> loop_ne prog maxSteps s')
      else (s, LoopEnd))"
  by pat_completeness auto
termination
  by (relation "measure (\<lambda>(prog, maxSteps, s). maxSteps - steps s)")
     (auto dest!: sym [of "(_, _)" "body_ne _ _"] body_ne_steps)

declare loop_ne.simps [simp del]

definition executeProgram_ne :: "level \<Rightarrow> program \<Rightarrow> nat \<Rightarrow> run_result" where
  "executeProgram_ne levelData programFunctions maxSteps =
     result_of (loop_ne programFunctions maxSteps (init_state levelData programFunctions))"

text \<open>
  A \<open>null\<close> entry that reaches the virtual machine decodes as condition \<open>0\<close> and
  opcode \<open>0\<close> (\<open>Math.floor(null / 100)\<close> and \<open>null % 100\<close> are both \<open>0\<close>):
  it costs a step and does nothing.
\<close>

definition as_program :: "buffer \<Rightarrow> program" where
  "as_program b = map (map (\<lambda>e. case e of None \<Rightarrow> 0 | Some i \<Rightarrow> i)) b"

text \<open>
  The test at a leaf of the search: the callback counts the program and reads the clock
  (\<open>Date.now() - startTime < timeoutMs\<close>); if time is left the program is run, and a
  solved run is returned with a copy of the array. The clock is a stream of readings
  \<open>clock 0, clock 1, ...\<close> of the time elapsed since \<open>startTime\<close>.
\<close>

definition test_program :: "(nat \<Rightarrow> nat) \<Rightarrow> nat \<Rightarrow> (buffer \<Rightarrow> run_result) \<Rightarrow> search" where
  "test_program clock timeoutMs exec st =
     (let st1 = st\<lparr>ss_tested := ss_tested st + 1\<rparr>;
          alive = clock (ss_reads st1) < timeoutMs;
          st2 = st1\<lparr>ss_reads := ss_reads st1 + 1\<rparr>
      in if \<not> alive then (None, st2)
         else (case exec (ss_program st2) of
                 Solved n \<Rightarrow> (Some (ss_program st2, n), st2)
               | _ \<Rightarrow> (None, st2)))"

definition tryBuildProgram ::
  "search \<Rightarrow> nat list \<Rightarrow> nat list \<Rightarrow> instr list \<Rightarrow> nat \<Rightarrow> nat \<Rightarrow> nat \<Rightarrow> found option \<times> search_state" where
  "tryBuildProgram test funcLengths funcOrder instructions targetTotal tested reads =
     tb_search test funcLengths funcOrder instructions targetTotal 0 0
       \<lparr>ss_program = map (\<lambda>_. []) funcLengths, ss_tested = tested, ss_reads = reads\<rparr>"

text \<open>The indices of the functions, largest first (the sort is stable).\<close>

definition funcOrder_of :: "nat list \<Rightarrow> nat list" where
  "funcOrder_of functionLengths =
     map fst (sort_key (\<lambda>(idx, len). - int len) (zip [0 ..< length functionLengths] functionLengths))"

text \<open>
  \<open>ConstraintSolver.solve\<close>: the loop over \<open>totalInstr\<close>, from \<open>1\<close> to the sum of
  the function lengths. The flag \<open>running\<close> can be cleared from outside between two
  iterations, so it is read as a function of the iteration.
\<close>

datatype solve_result =
    SolveSolved buffer nat nat
  | SolveUnsolved nat
  | SolveCancelled nat
  | SolveTimeout nat

record solve_env =
  env_clock :: "nat \<Rightarrow> nat"
  env_timeoutMs :: nat
  env_running :: "nat \<Rightarrow> bool"
  env_exec :: "buffer \<Rightarrow> run_result"

function solve_from :: "solve_env \<Rightarrow> nat list \<Rightarrow> instr list \<Rightarrow> nat \<Rightarrow> nat \<Rightarrow> nat \<Rightarrow> solve_result" where
  "solve_from env functionLengths instructions totalInstr tested reads =
     (if totalInstr \<le> sum_list functionLengths then
        if \<not> env_running env totalInstr then SolveCancelled tested
        else if env_clock env reads > env_timeoutMs env then SolveTimeout tested
        else (case tryBuildProgram (test_program (env_clock env) (env_timeoutMs env) (env_exec env))
                     functionLengths (funcOrder_of functionLengths) instructions totalInstr
                     tested (reads + 1) of
                (Some (prog, n), st) \<Rightarrow> SolveSolved prog n (ss_tested st)
              | (None, st) \<Rightarrow>
                  if env_clock env (ss_reads st) > env_timeoutMs env then SolveTimeout (ss_tested st)
                  else solve_from env functionLengths instructions (totalInstr + 1)
                         (ss_tested st) (ss_reads st + 1))
      else SolveUnsolved tested)"
  by pat_completeness auto
termination
  by (relation "measure (\<lambda>(env, fl, ins, t, tested, reads). Suc (sum_list fl) - t)") auto

declare solve_from.simps [simp del]

definition solve :: "(nat \<Rightarrow> nat) \<Rightarrow> nat \<Rightarrow> (nat \<Rightarrow> bool) \<Rightarrow> level \<Rightarrow> instr_name list \<Rightarrow> nat list \<Rightarrow> solve_result" where
  "solve clock timeoutMs running levelData availableInstructions functionLengths =
     solve_from
       \<lparr>env_clock = clock, env_timeoutMs = timeoutMs, env_running = running,
        env_exec = (\<lambda>b. executeProgram_ne levelData (as_program b) 10000)\<rparr>
       functionLengths (buildInstructions availableInstructions) 1 0 0"


text \<open>
  The same generator without the early exit: the list of the arrays that reach the test
  at a given total, in the order in which the search reaches them, together with the array
  left behind.
\<close>

type_synonym enum = "buffer \<Rightarrow> buffer list \<times> buffer"

definition put_slot :: "nat \<Rightarrow> nat \<Rightarrow> instr option \<Rightarrow> buffer \<Rightarrow> buffer" where
  "put_slot funcIdx pos v b = b[funcIdx := assign (b ! funcIdx) pos v]"

function enum_fill_search :: "enum \<Rightarrow> nat \<Rightarrow> nat \<Rightarrow> instr list \<Rightarrow> nat \<Rightarrow> constraints \<Rightarrow> enum"
  and enum_fill_for :: "enum \<Rightarrow> nat \<Rightarrow> nat \<Rightarrow> instr list \<Rightarrow> nat \<Rightarrow> constraints \<Rightarrow> instr list \<Rightarrow> enum"
where
  "enum_fill_search onComplete funcIdx targetLen allInstructions pos c b =
     (if pos \<ge> targetLen then onComplete b
      else enum_fill_for onComplete funcIdx targetLen allInstructions pos c
             (getValidInstructions c allInstructions) b)"
| "enum_fill_for onComplete funcIdx targetLen allInstructions pos c [] b = ([], b)"
| "enum_fill_for onComplete funcIdx targetLen allInstructions pos c (instr # others) b =
     (case enum_fill_search onComplete funcIdx targetLen allInstructions (pos + 1)
             (propagateConstraints c instr pos targetLen) (put_slot funcIdx pos (Some instr) b) of
        (qs, b2) \<Rightarrow>
          (case enum_fill_for onComplete funcIdx targetLen allInstructions pos c others
                  (put_slot funcIdx pos None b2) of
             (qs', b3) \<Rightarrow> (qs @ qs', b3)))"
  by pat_completeness auto
termination
  by (relation "inv_image (less_than <*lex*> less_than)
        (\<lambda>a. case a of
           Inl (k, f, L, allI, pos, c, st) \<Rightarrow> (L - pos, if pos \<ge> L then 0 else length allI + 2)
         | Inr (k, f, L, allI, pos, c, l, st) \<Rightarrow> (L - pos, length l + 1))")
     (auto simp add: length_getValidInstructions le_imp_less_Suc)

declare enum_fill_search.simps [simp del]

definition enum_fillFunction :: "enum \<Rightarrow> nat \<Rightarrow> nat \<Rightarrow> instr list \<Rightarrow> enum" where
  "enum_fillFunction onComplete funcIdx targetLen allInstructions b =
     (if targetLen = 0 then onComplete b
      else enum_fill_search onComplete funcIdx targetLen allInstructions 0 initial_constraints b)"

function enum_tb_search :: "nat list \<Rightarrow> nat list \<Rightarrow> instr list \<Rightarrow> nat \<Rightarrow> nat \<Rightarrow> nat \<Rightarrow> enum"
  and enum_tb_for :: "nat list \<Rightarrow> nat list \<Rightarrow> instr list \<Rightarrow> nat \<Rightarrow> nat \<Rightarrow> nat \<Rightarrow> nat \<Rightarrow> nat \<Rightarrow> enum"
where
  "enum_tb_search funcLengths funcOrder instructions targetTotal funcIdx usedTotal b =
     (if funcIdx \<ge> length funcOrder then
        (if usedTotal = targetTotal then ([b], b) else ([], b))
      else
        let realIdx = funcOrder ! funcIdx;
            maxLen = min (funcLengths ! realIdx) (targetTotal - usedTotal)
        in enum_tb_for funcLengths funcOrder instructions targetTotal funcIdx usedTotal 0 maxLen b)"
| "enum_tb_for funcLengths funcOrder instructions targetTotal funcIdx usedTotal len maxLen b =
     (if len \<le> maxLen then
        (case enum_fillFunction
                (enum_tb_search funcLengths funcOrder instructions targetTotal (funcIdx + 1)
                   (usedTotal + len))
                (funcOrder ! funcIdx) len instructions b of
           (qs, b1) \<Rightarrow>
             (case enum_tb_for funcLengths funcOrder instructions targetTotal funcIdx usedTotal
                     (len + 1) maxLen b1 of
                (qs', b2) \<Rightarrow> (qs @ qs', b2)))
      else ([], b))"
  by pat_completeness auto
termination
  by (relation "inv_image (less_than <*lex*> less_than)
        (\<lambda>a. case a of
           Inl (fl, fo, ins, tt, fi, u, st) \<Rightarrow>
             (if fi \<ge> length fo then 0 else 2 * (length fo - fi) + 1, 0)
         | Inr (fl, fo, ins, tt, fi, u, len, ml, st) \<Rightarrow> (2 * (length fo - fi), Suc ml - len))")
     auto

declare enum_tb_search.simps [simp del] enum_tb_for.simps [simp del]

definition candidates :: "nat list \<Rightarrow> instr list \<Rightarrow> nat \<Rightarrow> buffer list" where
  "candidates funcLengths instructions targetTotal =
     fst (enum_tb_search funcLengths (funcOrder_of funcLengths) instructions targetTotal 0 0
            (map (\<lambda>_. []) funcLengths))"

section \<open>The synthesis engine of \<open>Solver\<close>\<close>

text \<open>\<open>buildInstructionSet\<close>: the unconditional and the conditional instructions.\<close>

definition buildInstructionSet :: "instr_name list \<Rightarrow> instr list \<times> instr list" where
  "buildInstructionSet activeInstructions =
     (let opcodes = concat (map (\<lambda>name. case INST name of Some c \<Rightarrow> [c] | None \<Rightarrow> []) activeInstructions);
          conds = concat (map (\<lambda>name. case COND name of Some c \<Rightarrow> [c] | None \<Rightarrow> []) activeInstructions);
          unconditional = opcodes;
          conditional = concat (map (\<lambda>cond. map (\<lambda>op. cond * 100 + op) opcodes) conds)
      in (unconditional, conditional))"

text \<open>
  The generator \<open>generatePrograms\<close> as the list of the programs it yields, in order:
  \<open>genFunc\<close> gives a function every length from \<open>0\<close> to what is left of
  \<open>maxTotalInstructions\<close>, and yields once all functions are set and at least one
  instruction is used.
\<close>

function genFunc :: "instr list \<Rightarrow> nat list \<Rightarrow> nat \<Rightarrow> nat \<Rightarrow> nat \<Rightarrow> program list"
  and genInstructions :: "instr list \<Rightarrow> nat list \<Rightarrow> nat \<Rightarrow> nat \<Rightarrow> nat \<Rightarrow> nat \<Rightarrow> nat \<Rightarrow> instr list \<Rightarrow> program list"
where
  "genFunc instrList functionLengths maxTotalInstructions funcIndex totalUsed =
     (if funcIndex = length functionLengths then
        (if totalUsed > 0 then [replicate (length functionLengths) []] else [])
      else if funcIndex > length functionLengths then []
      else
        let maxLen = min (functionLengths ! funcIndex) (maxTotalInstructions - totalUsed)
        in concat (map (\<lambda>len. genInstructions instrList functionLengths maxTotalInstructions
                                  funcIndex totalUsed len len [])
                       [0 ..< maxLen + 1]))"
| "genInstructions instrList functionLengths maxTotalInstructions funcIndex totalUsed len currentLen seq =
     (if currentLen = 0 then
        map (\<lambda>rest. rest[funcIndex := seq])
            (genFunc instrList functionLengths maxTotalInstructions (funcIndex + 1) (totalUsed + len))
      else
        concat (map (\<lambda>instr. genInstructions instrList functionLengths maxTotalInstructions
                                 funcIndex totalUsed len (currentLen - 1) (seq @ [instr]))
                    instrList))"
  by pat_completeness auto
termination
  by (relation "inv_image (less_than <*lex*> less_than)
        (\<lambda>a. case a of
           Inl (il, fl, mt, fi, tu) \<Rightarrow> (if fi \<ge> length fl then 0 else 2 * (length fl - fi) + 2, 0)
         | Inr (il, fl, mt, fi, tu, len, cl, seq) \<Rightarrow>
             (if fi \<ge> length fl then 1 else 2 * (length fl - fi) + 1, cl))")
     auto

declare genFunc.simps [simp del] genInstructions.simps [simp del]

definition generatePrograms :: "instr list \<Rightarrow> nat list \<Rightarrow> nat \<Rightarrow> program list" where
  "generatePrograms instrList functionLengths maxTotalInstructions =
     genFunc instrList functionLengths maxTotalInstructions 0 0"

text \<open>
  \<open>generateInstructionSubsets\<close>: strategies 1 to 3 are deterministic; the subsets of
  strategy 4 are drawn with \<open>Math.random\<close> and are a parameter here.
\<close>

definition slice :: "'a list \<Rightarrow> nat \<Rightarrow> nat \<Rightarrow> 'a list" where
  "slice xs a b = take (b - a) (drop a xs)"

definition generateInstructionSubsets :: "instr list \<Rightarrow> nat \<Rightarrow> (nat \<Rightarrow> instr list list) \<Rightarrow> instr list list" where
  "generateInstructionSubsets allInstr subsetSize random =
     (let funcCalls = filter (\<lambda>i. i \<ge> 7 \<and> i \<le> 9) allInstr;
          movement = filter (\<lambda>i. i \<ge> 1 \<and> i \<le> 3) allInstr;
          paint = filter (\<lambda>i. i \<ge> 4 \<and> i \<le> 6) allInstr;
          conditional = filter (\<lambda>i. i \<ge> 100) allInstr;
          strategy1 =
            (if subsetSize \<ge> 3 \<and> length movement > 0 \<and> length conditional > 0 then
               let base = slice movement 0 (min 2 (subsetSize - 1))
               in map (\<lambda>i. base @ slice conditional i (i + subsetSize - length base))
                      [0 ..< min (length conditional) (subsetSize - length base)]
             else []);
          strategy2 =
            (if subsetSize \<ge> 4 \<and> length movement > 0 \<and> length paint > 0 \<and> length conditional > 0 then
               [slice movement 0 2 @ slice paint 0 1 @ slice conditional 0 (subsetSize - 3)]
             else []);
          strategy3 =
            (if subsetSize \<ge> 4 \<and> length funcCalls > 0 \<and> length movement > 0 then
               [slice movement 0 2 @ slice funcCalls 0 (min 2 (subsetSize - 2))
                @ slice conditional 0 (subsetSize - 4)]
             else [])
      in strategy1 @ strategy2 @ strategy3 @ random subsetSize)"

text \<open>
  \<open>Solver.solve\<close>: the loops over the subset sizes, the subsets of each size, the
  depths \<open>1 .. maxDepth\<close> for each subset, and the programs of each depth (at most
  \<open>maxPerDepth = 5000\<close> of them). The loops thread the counter \<open>tested\<close> and the
  number of clock readings.
\<close>

datatype solver_result =
    SolverSolved program nat nat
  | SolverUnsolved nat
  | SolverCancelled nat
  | SolverTimeout nat

record solver_env =
  senv_clock :: "nat \<Rightarrow> nat"
  senv_timeoutMs :: nat
  senv_running :: "nat \<Rightarrow> bool"
  senv_exec :: "program \<Rightarrow> run_result"

fun for_programs :: "solver_env \<Rightarrow> program list \<Rightarrow> nat \<Rightarrow> nat \<times> nat \<Rightarrow> solver_result option \<times> nat \<times> nat" where
  "for_programs env [] depthCount (tested, reads) = (None, tested, reads)"
| "for_programs env (program # others) depthCount (tested, reads) =
     (if \<not> senv_running env tested then (Some (SolverCancelled tested), tested, reads)
      else if senv_clock env reads > senv_timeoutMs env then (Some (SolverTimeout tested), tested, reads)
      else (case senv_exec env program of
              Solved n \<Rightarrow> (Some (SolverSolved program n (tested + 1)), tested + 1, reads + 1)
            | _ \<Rightarrow>
                if depthCount + 1 \<ge> 5000 then (None, tested + 1, reads + 1)
                else for_programs env others (depthCount + 1) (tested + 1, reads + 1)))"

fun for_depths :: "solver_env \<Rightarrow> instr list \<Rightarrow> nat list \<Rightarrow> nat list \<Rightarrow> nat \<times> nat \<Rightarrow> solver_result option \<times> nat \<times> nat" where
  "for_depths env instrSubset functionLengths [] tr = (None, tr)"
| "for_depths env instrSubset functionLengths (depth # depths) tr =
     (case for_programs env (generatePrograms instrSubset functionLengths depth) 0 tr of
        (Some r, tr') \<Rightarrow> (Some r, tr')
      | (None, tr') \<Rightarrow> for_depths env instrSubset functionLengths depths tr')"

fun for_subsets :: "solver_env \<Rightarrow> nat list \<Rightarrow> instr list list \<Rightarrow> nat \<times> nat \<Rightarrow> solver_result option \<times> nat \<times> nat" where
  "for_subsets env functionLengths [] tr = (None, tr)"
| "for_subsets env functionLengths (instrSubset # subsets) (tested, reads) =
     (if \<not> senv_running env tested then (Some (SolverCancelled tested), tested, reads)
      else if senv_clock env reads > senv_timeoutMs env then (Some (SolverTimeout tested), tested, reads)
      else let maxDepth = min (sum_list functionLengths) 8
           in (case for_depths env instrSubset functionLengths [1 ..< maxDepth + 1] (tested, reads + 1) of
                 (Some r, tr') \<Rightarrow> (Some r, tr')
               | (None, tr') \<Rightarrow> for_subsets env functionLengths subsets tr'))"

fun for_sizes :: "solver_env \<Rightarrow> nat list \<Rightarrow> instr list \<Rightarrow> (nat \<Rightarrow> instr list list) \<Rightarrow> nat list \<Rightarrow> nat \<times> nat \<Rightarrow> solver_result" where
  "for_sizes env functionLengths allInstr random [] (tested, reads) = SolverUnsolved tested"
| "for_sizes env functionLengths allInstr random (subsetSize # sizes) tr =
     (case for_subsets env functionLengths (generateInstructionSubsets allInstr subsetSize random) tr of
        (Some r, tr') \<Rightarrow> r
      | (None, tr') \<Rightarrow> for_sizes env functionLengths allInstr random sizes tr')"

definition solver_solve ::
  "(nat \<Rightarrow> nat) \<Rightarrow> nat \<Rightarrow> (nat \<Rightarrow> bool) \<Rightarrow> (nat \<Rightarrow> instr list list) \<Rightarrow> level \<Rightarrow> instr_name list \<Rightarrow> nat list \<Rightarrow> solver_result" where
  "solver_solve clock timeoutMs running random levelData availableInstructions functionLengths =
     (if length availableInstructions = 0 then
        (let emptyProgram = map (\<lambda>_. []) functionLengths
         in case executeProgram levelData emptyProgram 10000 of
              Solved n \<Rightarrow> SolverSolved emptyProgram n 1
            | _ \<Rightarrow> SolverUnsolved 1)
      else
        let (unconditional, conditional) = buildInstructionSet availableInstructions;
            allInstr = unconditional @ conditional;
            maxInstrInSubset = min (length allInstr) 8
        in for_sizes
             \<lparr>senv_clock = clock, senv_timeoutMs = timeoutMs, senv_running = running,
              senv_exec = (\<lambda>p. executeProgram levelData p 10000)\<rparr>
             functionLengths allInstr random [3 ..< maxInstrInSubset + 1] (0, 0))"

section \<open>Enumerations and counts used to state the search order\<close>

text \<open>
  Running the test over a list of arrays until one is solved: the array of the search
  state is set to each candidate in turn, and is left as \<open>final\<close> when none is solved.
\<close>

fun run_tests :: "search \<Rightarrow> buffer list \<Rightarrow> buffer \<Rightarrow> search" where
  "run_tests test [] final st = (None, st\<lparr>ss_program := final\<rparr>)"
| "run_tests test (q # qs) final st =
     (case test (st\<lparr>ss_program := q\<rparr>) of
        (Some r, st') \<Rightarrow> (Some r, st')
      | (None, st') \<Rightarrow> run_tests test qs final st')"

text \<open>A search with early exit agrees with the enumeration of its candidates.\<close>

definition refines :: "search \<Rightarrow> search \<Rightarrow> enum \<Rightarrow> bool" where
  "refines test k kE \<longleftrightarrow>
     (\<forall>st. k st = run_tests test (fst (kE (ss_program st))) (snd (kE (ss_program st))) st)"

text \<open>
  The shape of the functions in the shared array: a function filled up to \<open>n\<close> holds
  \<open>n\<close> instructions followed by \<open>null\<close> entries only. The count of a program is the
  number of its instructions, \<open>null\<close> entries left aside.
\<close>

definition all_null :: "instr option list \<Rightarrow> bool" where
  "all_null xs \<longleftrightarrow> (\<forall>e \<in> set xs. e = None)"

definition filled :: "instr option list \<Rightarrow> nat \<Rightarrow> bool" where
  "filled xs n \<longleftrightarrow> n \<le> length xs \<and> (\<forall>i < n. xs ! i \<noteq> None)
      \<and> (\<forall>i. n \<le> i \<longrightarrow> i < length xs \<longrightarrow> xs ! i = None)"

definition slot_count :: "instr option list \<Rightarrow> nat" where
  "slot_count xs = length (filter (\<lambda>e. e \<noteq> None) xs)"

definition instr_count :: "buffer \<Rightarrow> nat" where
  "instr_count b = sum_list (map slot_count b)"

text \<open>
  What the enumeration guarantees, given the set \<open>U\<close> of the functions already filled
  and the number \<open>m\<close> of instructions still to place: every array listed holds \<open>m\<close>
  more instructions than the array at the start, the functions of \<open>U\<close> are untouched,
  and the array left behind has the count of the array at the start.
\<close>

definition enum_spec :: "nat set \<Rightarrow> nat \<Rightarrow> enum \<Rightarrow> bool" where
  "enum_spec U m kE \<longleftrightarrow>
     (\<forall>b. (\<forall>g \<in> U. g < length b \<and> all_null (b ! g)) \<longrightarrow>
        (case kE b of (qs, b') \<Rightarrow>
           length b' = length b \<and> (\<forall>g. g \<notin> U \<longrightarrow> b' ! g = b ! g) \<and> (\<forall>g \<in> U. all_null (b' ! g))
           \<and> (\<forall>q \<in> set qs. length q = length b \<and> (\<forall>g. g \<notin> U \<longrightarrow> q ! g = b ! g)
                  \<and> (\<Sum>g \<in> U. slot_count (q ! g)) = m)))"

definition fill_post :: "nat set \<Rightarrow> nat \<Rightarrow> nat \<Rightarrow> nat \<Rightarrow> nat \<Rightarrow> buffer \<Rightarrow> buffer list \<times> buffer \<Rightarrow> bool" where
  "fill_post U m f L pos b r \<longleftrightarrow>
     (case r of (qs, b') \<Rightarrow>
        length b' = length b \<and> (\<forall>g. g \<notin> insert f U \<longrightarrow> b' ! g = b ! g) \<and> filled (b' ! f) pos
        \<and> (\<forall>g \<in> U. all_null (b' ! g))
        \<and> (\<forall>q \<in> set qs. length q = length b \<and> (\<forall>g. g \<notin> insert f U \<longrightarrow> q ! g = b ! g)
               \<and> filled (q ! f) L \<and> (\<Sum>g \<in> U. slot_count (q ! g)) = m))"

definition fill_pre :: "nat set \<Rightarrow> nat \<Rightarrow> nat \<Rightarrow> buffer \<Rightarrow> bool" where
  "fill_pre U f pos b \<longleftrightarrow>
     f < length b \<and> filled (b ! f) pos \<and> (\<forall>g \<in> U. g < length b \<and> all_null (b ! g))"

definition spec_at :: "nat set \<Rightarrow> nat \<Rightarrow> buffer \<Rightarrow> buffer list \<times> buffer \<Rightarrow> bool" where
  "spec_at U m b r \<longleftrightarrow>
     ((\<forall>g \<in> U. g < length b \<and> all_null (b ! g)) \<longrightarrow>
        (case r of (qs, b') \<Rightarrow>
           length b' = length b \<and> (\<forall>g. g \<notin> U \<longrightarrow> b' ! g = b ! g) \<and> (\<forall>g \<in> U. all_null (b' ! g))
           \<and> (\<forall>q \<in> set qs. length q = length b \<and> (\<forall>g. g \<notin> U \<longrightarrow> q ! g = b ! g)
                  \<and> (\<Sum>g \<in> U. slot_count (q ! g)) = m)))"

text \<open>A program is a solution when its run is reported solved.\<close>

definition solved_by :: "(buffer \<Rightarrow> run_result) \<Rightarrow> buffer \<Rightarrow> bool" where
  "solved_by exec q \<longleftrightarrow> (\<exists>n. exec q = Solved n)"

text \<open>The corridor with the robot two cells further: the star is three cells ahead.\<close>

definition short_level :: level where
  "short_level = corridor_level\<lparr>player_x := 5\<rparr>"

section \<open>Properties of the virtual machine\<close>

lemma loop_continue:
  "steps s < m \<Longrightarrow> stack s \<noteq> [] \<Longrightarrow> body prog s = (s', None) \<Longrightarrow> loop prog m s = loop prog m s'"
  by (simp add: loop.simps [of prog m s])

lemma loop_exit:
  "steps s < m \<Longrightarrow> stack s \<noteq> [] \<Longrightarrow> body prog s = (s', Some e) \<Longrightarrow> loop prog m s = (s', e)"
  by (simp add: loop.simps [of prog m s])

lemma loop_end:
  "\<not> (steps s < m \<and> stack s \<noteq> []) \<Longrightarrow> loop prog m s = (s, LoopEnd)"
  by (subst loop.simps) auto

lemma body_fires:
  assumes "stars s \<noteq> 0" and "length (stack s) \<le> 100" and "stack s = instr # rest"
    and "instr div 100 = 0 \<or> cell (board s) (xpos s) (ypos s) mod 4 = instr div 100"
  shows "body prog s = exec_opcode prog (instr mod 100) (s\<lparr>stack := rest, steps := steps s + 1\<rparr>)"
  using assms by (auto simp add: body_def Let_def)

lemma body_call:
  assumes "stars s \<noteq> 0" and "length (stack s) \<le> 100" and "stack s = instr # rest"
    and "instr div 100 = 0 \<or> cell (board s) (xpos s) (ypos s) mod 4 = instr div 100"
    and "instr mod 100 = INST_F0 + n" and "n < 3"
  shows "body prog s = (call prog n (s\<lparr>stack := rest, steps := steps s + 1\<rparr>), None)"
  using body_fires [OF assms(1-4), of prog] assms(5,6)
  by (auto simp add: exec_opcode_def INST_defs)

lemma wf_init_corridor: "wf_state (init_state corridor_level p)"
  by (simp add: wf_state_def init_state_def corridor_level_def corridor_board_def void_row_def)

lemmas corridor_defs = init_state_def corridor_level_def corridor_board_def void_row_def

text \<open>
  Claim C3. When the popped instruction carries a condition that differs from the colour
  of the current cell (\<open>board[y][x] % 4\<close>), the pass through the loop body only removes
  the instruction from the stack and adds one to the step counter: position, direction,
  stars and board are as before, no exit is taken, and the run goes on with the rest of
  the stack.
\<close>

theorem guard_mismatch_discards:
  assumes "wf_state s" and "stars s \<noteq> 0" and "length (stack s) \<le> 100"
    and "stack s = instr # rest"
    and "0 < instr div 100"
    and "cell (board s) (xpos s) (ypos s) mod 4 \<noteq> instr div 100"
  shows "body prog s = (s\<lparr>stack := rest, steps := steps s + 1\<rparr>, None)
    \<and> (steps s < maxSteps \<longrightarrow>
         loop prog maxSteps s = loop prog maxSteps (s\<lparr>stack := rest, steps := steps s + 1\<rparr>))"
proof -
  have b: "body prog s = (s\<lparr>stack := rest, steps := steps s + 1\<rparr>, None)"
    using assms by (simp add: body_def Let_def)
  show ?thesis using b assms(4) by (simp add: loop.simps [of prog maxSteps s])
qed

theorem guard_mismatch_discards_witness:
  "wf_state (init_state corridor_level [[201, 1]])
   \<and> cell (board (init_state corridor_level [[201, 1]])) 3 5 mod 4 = 1
   \<and> body [[201, 1]] (init_state corridor_level [[201, 1]])
       = ((init_state corridor_level [[201, 1]])\<lparr>stack := [1], steps := 1\<rparr>, None)
   \<and> loop [[201, 1]] 10 (init_state corridor_level [[201, 1]])
       = loop [[201, 1]] 10 ((init_state corridor_level [[201, 1]])\<lparr>stack := [1], steps := 1\<rparr>)"
  using guard_mismatch_discards [of "init_state corridor_level [[201, 1]]" 201 "[1]" "[[201,1]]" 10]
  by (simp add: wf_init_corridor) (simp add: corridor_defs cell_def)

text \<open>
  The write \<open>state.board[newY][newX] -= 4\<close> on a 16 x 16 board: the cell written
  reads back the new value, and every other cell reads as before.
\<close>

lemma cell_set_cell_same:
  assumes "length b = 16" and "list_all (\<lambda>row. length row = 16) b"
    and "0 \<le> x" "x < 16" "0 \<le> y" "y < 16"
  shows "cell (set_cell b x y v) x y = v"
proof -
  have y: "nat y < length b" using assms(1,5,6) by simp
  then have "b ! nat y \<in> set b" by simp
  then have "length (b ! nat y) = 16" using assms(2) by (simp add: list_all_iff)
  then have x: "nat x < length (b ! nat y)" using assms(3,4) by simp
  show ?thesis using x y by (simp add: cell_def set_cell_def)
qed

lemma cell_set_cell_other:
  assumes "0 \<le> x" "0 \<le> y" "0 \<le> x'" "0 \<le> y'" and "x' \<noteq> x \<or> y' \<noteq> y"
  shows "cell (set_cell b x y v) x' y' = cell b x' y'"
proof (cases "y' = y")
  case True
  then have "x' \<noteq> x" using assms(5) by simp
  then have ne: "nat x \<noteq> nat x'" using assms(1,3) by simp
  show ?thesis
  proof (cases "nat y < length b")
    case True
    then show ?thesis using ne \<open>y' = y\<close> by (simp add: cell_def set_cell_def)
  next
    case False
    then have "b[nat y := (b ! nat y)[nat x := v]] = b" by (simp add: list_update_beyond)
    then show ?thesis by (simp add: cell_def set_cell_def)
  qed
next
  case False
  then have "nat y \<noteq> nat y'" using assms(2,4) by simp
  then show ?thesis by (simp add: cell_def set_cell_def)
qed

text \<open>
  Claim C4. A forward move (unconditional, or with a condition that matches the current
  cell) whose destination is outside the 16 x 16 grid or is a void cell makes the run
  return at once with \<open>{solved: false}\<close>: the state at the return differs from the
  state before the step only by the popped instruction and the step counter, so position,
  board and stars are untouched and the rest of the stack is never executed. Otherwise
  the robot moves to the destination and keeps its direction. When the destination held
  a star (value above 3) the star is cleared, that is, the destination cell holds its
  former value minus 4 after the move, and the remaining count goes down by one; when it
  held none, the destination cell and the count are as before. Every other cell of the
  board keeps its value.
\<close>

theorem forward_death_atomic:
  assumes "wf_state s" and "stars s \<noteq> 0" and "length (stack s) \<le> 100"
    and "stack s = instr # rest" and "instr mod 100 = INST_FW"
    and "instr div 100 = 0 \<or> cell (board s) (xpos s) (ypos s) mod 4 = instr div 100"
    and "newX = xpos s + dx ! dir s" and "newY = ypos s + dy ! dir s"
    and "popped = s\<lparr>stack := rest, steps := steps s + 1\<rparr>"
  shows "(newX < 0 \<or> 16 \<le> newX \<or> newY < 0 \<or> 16 \<le> newY \<longrightarrow>
            body prog s = (popped, Some RetOutOfBounds)
            \<and> (steps s < maxSteps \<longrightarrow> loop prog maxSteps s = (popped, RetOutOfBounds)
                  \<and> result_of (loop prog maxSteps s) = Unsolved))
       \<and> (0 \<le> newX \<and> newX < 16 \<and> 0 \<le> newY \<and> newY < 16 \<and> cell (board s) newX newY = 0 \<longrightarrow>
            body prog s = (popped, Some RetVoid)
            \<and> (steps s < maxSteps \<longrightarrow> loop prog maxSteps s = (popped, RetVoid)
                  \<and> result_of (loop prog maxSteps s) = Unsolved))
       \<and> (0 \<le> newX \<and> newX < 16 \<and> 0 \<le> newY \<and> newY < 16 \<and> cell (board s) newX newY \<noteq> 0 \<longrightarrow>
            body prog s =
              (if cell (board s) newX newY > 3
               then popped\<lparr>xpos := newX, ypos := newY,
                      board := set_cell (board s) newX newY (cell (board s) newX newY - 4),
                      stars := stars s - 1\<rparr>
               else popped\<lparr>xpos := newX, ypos := newY\<rparr>, None)
            \<and> xpos (fst (body prog s)) = newX \<and> ypos (fst (body prog s)) = newY
            \<and> dir (fst (body prog s)) = dir s \<and> stack (fst (body prog s)) = rest
            \<and> steps (fst (body prog s)) = steps s + 1
            \<and> (if cell (board s) newX newY > 3
               then cell (board (fst (body prog s))) newX newY = cell (board s) newX newY - 4
                    \<and> stars (fst (body prog s)) = stars s - 1
               else cell (board (fst (body prog s))) newX newY = cell (board s) newX newY
                    \<and> stars (fst (body prog s)) = stars s)
            \<and> (\<forall>x y. 0 \<le> x \<and> 0 \<le> y \<and> (x \<noteq> newX \<or> y \<noteq> newY) \<longrightarrow>
                  cell (board (fst (body prog s))) x y = cell (board s) x y))"
proof -
  have b: "body prog s = forward popped"
    using body_fires [OF assms(2,3,4,6), of prog] assms(5,9) by (simp add: exec_opcode_def)
  have ne: "stack s \<noteq> []" using assms(4) by simp
  have 1: "body prog s = (popped, Some RetOutOfBounds)"
    if "newX < 0 \<or> 16 \<le> newX \<or> newY < 0 \<or> 16 \<le> newY"
    using that b assms(7,8,9) by (auto simp add: forward_def Let_def)
  have 2: "body prog s = (popped, Some RetVoid)"
    if "0 \<le> newX \<and> newX < 16 \<and> 0 \<le> newY \<and> newY < 16 \<and> cell (board s) newX newY = 0"
    using that b assms(7,8,9) by (auto simp add: forward_def Let_def)
  have 3: "body prog s =
              (if cell (board s) newX newY > 3
               then popped\<lparr>xpos := newX, ypos := newY,
                      board := set_cell (board s) newX newY (cell (board s) newX newY - 4),
                      stars := stars s - 1\<rparr>
               else popped\<lparr>xpos := newX, ypos := newY\<rparr>, None)"
    if "0 \<le> newX \<and> newX < 16 \<and> 0 \<le> newY \<and> newY < 16 \<and> cell (board s) newX newY \<noteq> 0"
    using that b assms(7,8,9) by (auto simp add: forward_def Let_def)
  have shape: "length (board s) = 16" "list_all (\<lambda>row. length row = 16) (board s)"
    using assms(1) by (simp_all add: wf_state_def)
  have 4: "xpos (fst (body prog s)) = newX \<and> ypos (fst (body prog s)) = newY
            \<and> dir (fst (body prog s)) = dir s \<and> stack (fst (body prog s)) = rest
            \<and> steps (fst (body prog s)) = steps s + 1
            \<and> (if cell (board s) newX newY > 3
               then cell (board (fst (body prog s))) newX newY = cell (board s) newX newY - 4
                    \<and> stars (fst (body prog s)) = stars s - 1
               else cell (board (fst (body prog s))) newX newY = cell (board s) newX newY
                    \<and> stars (fst (body prog s)) = stars s)
            \<and> (\<forall>x y. 0 \<le> x \<and> 0 \<le> y \<and> (x \<noteq> newX \<or> y \<noteq> newY) \<longrightarrow>
                  cell (board (fst (body prog s))) x y = cell (board s) x y)"
    if h: "0 \<le> newX \<and> newX < 16 \<and> 0 \<le> newY \<and> newY < 16 \<and> cell (board s) newX newY \<noteq> 0"
  proof (cases "cell (board s) newX newY > 3")
    case True
    have bd: "body prog s = (popped\<lparr>xpos := newX, ypos := newY,
                      board := set_cell (board s) newX newY (cell (board s) newX newY - 4),
                      stars := stars s - 1\<rparr>, None)"
      using 3 [OF h] True by simp
    have same: "cell (set_cell (board s) newX newY (cell (board s) newX newY - 4)) newX newY
        = cell (board s) newX newY - 4"
      using h by (intro cell_set_cell_same [OF shape]) simp_all
    have other: "cell (set_cell (board s) newX newY (cell (board s) newX newY - 4)) x y
        = cell (board s) x y" if "0 \<le> x \<and> 0 \<le> y \<and> (x \<noteq> newX \<or> y \<noteq> newY)" for x y
      using h that by (intro cell_set_cell_other) simp_all
    show ?thesis using True same other by (simp add: bd assms(9))
  next
    case False
    have bd: "body prog s = (popped\<lparr>xpos := newX, ypos := newY\<rparr>, None)"
      using 3 [OF h] False by simp
    show ?thesis using False by (simp add: bd assms(9))
  qed
  have A: "newX < 0 \<or> 16 \<le> newX \<or> newY < 0 \<or> 16 \<le> newY \<longrightarrow>
            body prog s = (popped, Some RetOutOfBounds)
            \<and> (steps s < maxSteps \<longrightarrow> loop prog maxSteps s = (popped, RetOutOfBounds)
                  \<and> result_of (loop prog maxSteps s) = Unsolved)"
    using 1 loop_exit [OF _ ne, of maxSteps prog popped] by (auto simp add: result_of_def)
  have B: "0 \<le> newX \<and> newX < 16 \<and> 0 \<le> newY \<and> newY < 16 \<and> cell (board s) newX newY = 0 \<longrightarrow>
            body prog s = (popped, Some RetVoid)
            \<and> (steps s < maxSteps \<longrightarrow> loop prog maxSteps s = (popped, RetVoid)
                  \<and> result_of (loop prog maxSteps s) = Unsolved)"
    using 2 loop_exit [OF _ ne, of maxSteps prog popped] by (auto simp add: result_of_def)
  show ?thesis
    using A B 3 4 by blast
qed


theorem forward_death_atomic_witness:
  "wf_state ((init_state corridor_level [[1, 3]])\<lparr>dir := 1\<rparr>)
   \<and> loop [[1, 3]] 10 ((init_state corridor_level [[1, 3]])\<lparr>dir := 1\<rparr>)
       = ((init_state corridor_level [[1, 3]])\<lparr>dir := 1, stack := [3], steps := 1\<rparr>, RetVoid)
   \<and> loop [[1, 3]] 10 ((init_state corridor_level [[1, 3]])\<lparr>xpos := 15\<rparr>)
       = ((init_state corridor_level [[1, 3]])\<lparr>xpos := 15, stack := [3], steps := 1\<rparr>, RetOutOfBounds)
   \<and> body [[1]] (init_state corridor_level [[1]])
       = ((init_state corridor_level [[1]])\<lparr>stack := [], steps := 1, xpos := 4\<rparr>, None)
   \<and> cell (board (init_state corridor_level [[1, 3]])) 8 5 = 5
   \<and> cell (board (fst (body [[1, 3]] ((init_state corridor_level [[1, 3]])\<lparr>xpos := 7\<rparr>)))) 8 5 = 1
   \<and> stars (fst (body [[1, 3]] ((init_state corridor_level [[1, 3]])\<lparr>xpos := 7\<rparr>))) = 0
   \<and> xpos (fst (body [[1, 3]] ((init_state corridor_level [[1, 3]])\<lparr>xpos := 7\<rparr>))) = 8
   \<and> stack (fst (body [[1, 3]] ((init_state corridor_level [[1, 3]])\<lparr>xpos := 7\<rparr>))) = [3]
   \<and> snd (body [[1, 3]] ((init_state corridor_level [[1, 3]])\<lparr>xpos := 7\<rparr>)) = None"
proof -
  let ?s1 = "(init_state corridor_level [[1, 3]])\<lparr>dir := 1\<rparr>"
  have wf1: "wf_state ?s1" using wf_init_corridor [of "[[1, 3]]"] by (simp add: wf_state_def)
  have h1: "stars ?s1 \<noteq> 0" "length (stack ?s1) \<le> 100" "stack ?s1 = 1 # [3]" "1 mod 100 = INST_FW"
    "(1::nat) div 100 = 0 \<or> cell (board ?s1) (xpos ?s1) (ypos ?s1) mod 4 = 1 div 100"
    "3 = xpos ?s1 + dx ! dir ?s1" "4 = ypos ?s1 + dy ! dir ?s1"
    by (simp_all add: corridor_defs INST_defs dx_def dy_def)
  have c1: "cell (board ?s1) 3 4 = 0" by (simp add: corridor_defs cell_def)
  have d: "loop [[1, 3]] 10 ?s1 = (?s1\<lparr>stack := [3], steps := steps ?s1 + 1\<rparr>, RetVoid)"
    using forward_death_atomic [OF wf1 h1 refl, of "[[1, 3]]" 10] c1
    by (simp add: init_state_def corridor_level_def)
  let ?e = "(init_state corridor_level [[1, 3]])\<lparr>xpos := 15\<rparr>"
  have wfe: "wf_state ?e" using wf_init_corridor [of "[[1, 3]]"] by (simp add: wf_state_def)
  have he: "stars ?e \<noteq> 0" "length (stack ?e) \<le> 100" "stack ?e = 1 # [3]" "1 mod 100 = INST_FW"
    "(1::nat) div 100 = 0 \<or> cell (board ?e) (xpos ?e) (ypos ?e) mod 4 = 1 div 100"
    "16 = xpos ?e + dx ! dir ?e" "5 = ypos ?e + dy ! dir ?e"
    by (simp_all add: corridor_defs INST_defs dx_def dy_def)
  have te: "(16 :: int) < 0 \<or> (16 :: int) \<le> 16 \<or> (5 :: int) < 0 \<or> (16 :: int) \<le> 5 \<longrightarrow>
      steps ?e < 10 \<longrightarrow> loop [[1, 3]] 10 ?e = (?e\<lparr>stack := [3], steps := steps ?e + 1\<rparr>, RetOutOfBounds)"
    using forward_death_atomic [OF wfe he refl, of "[[1, 3]]" 10] by blast
  have oob: "loop [[1, 3]] 10 ?e = (?e\<lparr>stack := [3], steps := steps ?e + 1\<rparr>, RetOutOfBounds)"
    using te by (simp add: init_state_def)
  let ?t0 = "init_state corridor_level [[1]]"
  have h2: "stars ?t0 \<noteq> 0" "length (stack ?t0) \<le> 100" "stack ?t0 = 1 # []" "1 mod 100 = INST_FW"
    "(1::nat) div 100 = 0 \<or> cell (board ?t0) (xpos ?t0) (ypos ?t0) mod 4 = 1 div 100"
    "4 = xpos ?t0 + dx ! dir ?t0" "5 = ypos ?t0 + dy ! dir ?t0"
    by (simp_all add: corridor_defs INST_defs dx_def dy_def)
  have c2: "cell (board ?t0) 4 5 = 1" by (simp add: corridor_defs cell_def)
  have t2: "0 \<le> (4 :: int) \<and> (4 :: int) < 16 \<and> 0 \<le> (5 :: int) \<and> (5 :: int) < 16 \<and> cell (board ?t0) 4 5 \<noteq> 0 \<longrightarrow>
      body [[1]] ?t0 =
        (if cell (board ?t0) 4 5 > 3
         then ?t0\<lparr>stack := [], steps := steps ?t0 + 1, xpos := 4, ypos := 5,
                board := set_cell (board ?t0) 4 5 (cell (board ?t0) 4 5 - 4),
                stars := stars ?t0 - 1\<rparr>
         else ?t0\<lparr>stack := [], steps := steps ?t0 + 1, xpos := 4, ypos := 5\<rparr>, None)"
    using forward_death_atomic [OF wf_init_corridor h2 refl, of "[[1]]" 10] by blast
  have m: "body [[1]] ?t0 = (?t0\<lparr>stack := [], steps := 1, xpos := 4\<rparr>, None)"
    using t2 c2 by (simp add: init_state_def corridor_level_def)
  let ?u = "(init_state corridor_level [[1, 3]])\<lparr>xpos := 7\<rparr>"
  let ?u' = "fst (body [[1, 3]] ?u)"
  have wfu: "wf_state ?u" using wf_init_corridor [of "[[1, 3]]"] by (simp add: wf_state_def)
  have hu: "stars ?u \<noteq> 0" "length (stack ?u) \<le> 100" "stack ?u = 1 # [3]" "1 mod 100 = INST_FW"
    "(1::nat) div 100 = 0 \<or> cell (board ?u) (xpos ?u) (ypos ?u) mod 4 = 1 div 100"
    "8 = xpos ?u + dx ! dir ?u" "5 = ypos ?u + dy ! dir ?u"
    by (simp_all add: corridor_defs INST_defs dx_def dy_def)
  have cu: "cell (board ?u) 8 5 = 5" by (simp add: corridor_defs cell_def)
  have pre: "0 \<le> (8 :: int) \<and> (8 :: int) < 16 \<and> 0 \<le> (5 :: int) \<and> (5 :: int) < 16 \<and> cell (board ?u) 8 5 \<noteq> 0"
    using cu by simp
  have tu: "xpos ?u' = 8 \<and> stack ?u' = [3]
      \<and> (if cell (board ?u) 8 5 > 3
          then cell (board ?u') 8 5 = cell (board ?u) 8 5 - 4 \<and> stars ?u' = stars ?u - 1
          else cell (board ?u') 8 5 = cell (board ?u) 8 5 \<and> stars ?u' = stars ?u)"
    using forward_death_atomic [OF wfu hu refl, of "[[1, 3]]" 10] pre by blast
  have tb: "body [[1, 3]] ?u =
        (if cell (board ?u) 8 5 > 3
         then ?u\<lparr>stack := [3], steps := steps ?u + 1, xpos := 8, ypos := 5,
                board := set_cell (board ?u) 8 5 (cell (board ?u) 8 5 - 4),
                stars := stars ?u - 1\<rparr>
         else ?u\<lparr>stack := [3], steps := steps ?u + 1, xpos := 8, ypos := 5\<rparr>, None)"
    using forward_death_atomic [OF wfu hu refl, of "[[1, 3]]" 10] pre by blast
  have sn: "snd (body [[1, 3]] ?u) = None" unfolding tb by simp
  have su: "stars ?u = 1" by (simp add: init_state_def corridor_level_def)
  have pick: "cell (board ?u') 8 5 = 1 \<and> stars ?u' = 0 \<and> xpos ?u' = 8 \<and> stack ?u' = [3]
      \<and> snd (body [[1, 3]] ?u) = None"
    using tu sn unfolding cu su by simp
  have c0: "cell (board (init_state corridor_level [[1, 3]])) 8 5 = 5"
    by (simp add: corridor_defs cell_def)
  show ?thesis using d oob m wf1 pick c0 by (simp add: init_state_def corridor_level_def)
qed






lemma exec_turn_left: "exec_opcode prog INST_TL s = (s\<lparr>dir := (dir s + 3) mod 4\<rparr>, None)"
  by (simp add: exec_opcode_def INST_defs)

lemma exec_turn_right: "exec_opcode prog INST_TR s = (s\<lparr>dir := (dir s + 1) mod 4\<rparr>, None)"
  by (simp add: exec_opcode_def INST_defs)

lemma body_turn_left:
  assumes "stars s \<noteq> 0" and "length (stack s) \<le> 100" and "stack s = INST_TL # rest"
  shows "body prog s = (s\<lparr>stack := rest, steps := steps s + 1, dir := (dir s + 3) mod 4\<rparr>, None)"
  using body_fires [OF assms, of prog] by (simp add: INST_defs exec_turn_left [unfolded INST_defs])

lemma body_turn_right:
  assumes "stars s \<noteq> 0" and "length (stack s) \<le> 100" and "stack s = INST_TR # rest"
  shows "body prog s = (s\<lparr>stack := rest, steps := steps s + 1, dir := (dir s + 1) mod 4\<rparr>, None)"
  using body_fires [OF assms, of prog] by (simp add: INST_defs exec_turn_right [unfolded INST_defs])

lemma loop_turn_left:
  assumes "stars s \<noteq> 0" and "length (stack s) \<le> 100" and "stack s = INST_TL # rest"
    and "steps s < m"
  shows "loop prog m s = loop prog m (s\<lparr>stack := rest, steps := steps s + 1, dir := (dir s + 3) mod 4\<rparr>)"
  using loop_continue [OF assms(4) _ body_turn_left [OF assms(1,2,3)]] assms(3) by simp

lemma loop_turn_right:
  assumes "stars s \<noteq> 0" and "length (stack s) \<le> 100" and "stack s = INST_TR # rest"
    and "steps s < m"
  shows "loop prog m s = loop prog m (s\<lparr>stack := rest, steps := steps s + 1, dir := (dir s + 1) mod 4\<rparr>)"
  using loop_continue [OF assms(4) _ body_turn_right [OF assms(1,2,3)]] assms(3) by simp

lemma loop_cap: "steps s = m \<Longrightarrow> loop prog m s = (s, LoopEnd)"
  by (rule loop_end) simp

lemma dir_cases: "d < (4::nat) \<Longrightarrow> d = 0 \<or> d = 1 \<or> d = 2 \<or> d = 3"
  by arith

lemma turn_left_right: "d < (4::nat) \<Longrightarrow> ((d + 3) mod 4 + 1) mod 4 = d"
  by (drule dir_cases) auto

lemma turn_right_left: "d < (4::nat) \<Longrightarrow> ((d + 1) mod 4 + 3) mod 4 = d"
  by (drule dir_cases) auto

lemma turn_left_4: "d < (4::nat) \<Longrightarrow> ((((d + 3) mod 4 + 3) mod 4 + 3) mod 4 + 3) mod 4 = d"
  by (drule dir_cases) auto

lemma turn_right_4: "d < (4::nat) \<Longrightarrow> ((((d + 1) mod 4 + 1) mod 4 + 1) mod 4 + 1) mod 4 = d"
  by (drule dir_cases) auto

lemma loop_turns2:
  assumes "stars s \<noteq> 0" and "length (stack s) \<le> 100"
    and "stack s = a # b # rest"
    and "a = INST_TL \<and> ta = 3 \<or> a = INST_TR \<and> ta = 1"
    and "b = INST_TL \<and> tb = 3 \<or> b = INST_TR \<and> tb = 1"
    and "steps s + 2 \<le> m"
  shows "loop prog m s =
     loop prog m (s\<lparr>stack := rest, steps := steps s + 2, dir := ((dir s + ta) mod 4 + tb) mod 4\<rparr>)"
proof -
  let ?s1 = "s\<lparr>stack := b # rest, steps := steps s + 1, dir := (dir s + ta) mod 4\<rparr>"
  have 1: "loop prog m s = loop prog m ?s1"
    using assms(4)
  proof
    assume "a = INST_TL \<and> ta = 3"
    then show ?thesis using loop_turn_left [OF assms(1,2), of "b # rest" m prog] assms(3,6) by simp
  next
    assume "a = INST_TR \<and> ta = 1"
    then show ?thesis using loop_turn_right [OF assms(1,2), of "b # rest" m prog] assms(3,6) by simp
  qed
  have h: "stars ?s1 \<noteq> 0" "length (stack ?s1) \<le> 100" "steps ?s1 < m"
    using assms by simp_all
  have 2: "loop prog m ?s1 =
     loop prog m (s\<lparr>stack := rest, steps := steps s + 2, dir := ((dir s + ta) mod 4 + tb) mod 4\<rparr>)"
    using assms(5)
  proof
    assume "b = INST_TL \<and> tb = 3"
    then show ?thesis using loop_turn_left [OF h(1,2) _ h(3), of rest prog] by simp
  next
    assume "b = INST_TR \<and> tb = 1"
    then show ?thesis using loop_turn_right [OF h(1,2) _ h(3), of rest prog] by simp
  qed
  show ?thesis using 1 2 by simp
qed

text \<open>
  Claim C10. A left turn sets the direction to \<open>(d + 3) mod 4\<close> and a right turn to
  \<open>(d + 1) mod 4\<close>, and neither changes anything else of the state but the popped
  instruction and the step counter. For a direction in \<open>{0, 1, 2, 3}\<close>, a left turn
  followed by a right turn, a right turn followed by a left turn, four left turns and
  four right turns all give back the direction the robot started with: the state after
  these steps is the state before, minus the executed instructions and with the step
  counter advanced.
\<close>

theorem turn_round_trip:
  assumes "stars s \<noteq> 0" and "length (stack s) \<le> 100" and "dir s < 4"
  shows "(stack s = INST_TL # rest \<longrightarrow>
            body prog s = (s\<lparr>stack := rest, steps := steps s + 1, dir := (dir s + 3) mod 4\<rparr>, None))
       \<and> (stack s = INST_TR # rest \<longrightarrow>
            body prog s = (s\<lparr>stack := rest, steps := steps s + 1, dir := (dir s + 1) mod 4\<rparr>, None))
       \<and> (stack s = INST_TL # INST_TR # rest \<or> stack s = INST_TR # INST_TL # rest \<longrightarrow>
            loop prog (steps s + 2) s = (s\<lparr>stack := rest, steps := steps s + 2\<rparr>, LoopEnd))
       \<and> (stack s = INST_TL # INST_TL # INST_TL # INST_TL # rest
            \<or> stack s = INST_TR # INST_TR # INST_TR # INST_TR # rest \<longrightarrow>
            loop prog (steps s + 4) s = (s\<lparr>stack := rest, steps := steps s + 4\<rparr>, LoopEnd))"
proof -
  have lr: "loop prog (steps s + 2) s = (s\<lparr>stack := rest, steps := steps s + 2\<rparr>, LoopEnd)"
    if st: "stack s = INST_TL # INST_TR # rest"
    using loop_turns2 [OF assms(1,2) st, of 3 1 "steps s + 2" prog] turn_left_right [OF assms(3)]
    by (simp add: loop_cap)
  have rl: "loop prog (steps s + 2) s = (s\<lparr>stack := rest, steps := steps s + 2\<rparr>, LoopEnd)"
    if st: "stack s = INST_TR # INST_TL # rest"
    using loop_turns2 [OF assms(1,2) st, of 1 3 "steps s + 2" prog] turn_right_left [OF assms(3)]
    by (simp add: loop_cap)
  have l4: "loop prog (steps s + 4) s = (s\<lparr>stack := rest, steps := steps s + 4\<rparr>, LoopEnd)"
    if st: "stack s = INST_TL # INST_TL # INST_TL # INST_TL # rest"
  proof -
    let ?s2 = "s\<lparr>stack := INST_TL # INST_TL # rest, steps := steps s + 2,
                  dir := ((dir s + 3) mod 4 + 3) mod 4\<rparr>"
    have a: "loop prog (steps s + 4) s = loop prog (steps s + 4) ?s2"
      using loop_turns2 [OF assms(1,2) st, of 3 3 "steps s + 4" prog] by simp
    have h: "stars ?s2 \<noteq> 0" "length (stack ?s2) \<le> 100" "stack ?s2 = INST_TL # INST_TL # rest"
      using assms st by simp_all
    show ?thesis
      using a loop_turns2 [OF h, of 3 3 "steps s + 4" prog] turn_left_4 [OF assms(3)]
      by (simp add: loop_cap)
  qed
  have r4: "loop prog (steps s + 4) s = (s\<lparr>stack := rest, steps := steps s + 4\<rparr>, LoopEnd)"
    if st: "stack s = INST_TR # INST_TR # INST_TR # INST_TR # rest"
  proof -
    let ?s2 = "s\<lparr>stack := INST_TR # INST_TR # rest, steps := steps s + 2,
                  dir := ((dir s + 1) mod 4 + 1) mod 4\<rparr>"
    have a: "loop prog (steps s + 4) s = loop prog (steps s + 4) ?s2"
      using loop_turns2 [OF assms(1,2) st, of 1 1 "steps s + 4" prog] by simp
    have h: "stars ?s2 \<noteq> 0" "length (stack ?s2) \<le> 100" "stack ?s2 = INST_TR # INST_TR # rest"
      using assms st by simp_all
    show ?thesis
      using a loop_turns2 [OF h, of 1 1 "steps s + 4" prog] turn_right_4 [OF assms(3)]
      by (simp add: loop_cap)
  qed
  show ?thesis
    using body_turn_left [OF assms(1,2), of rest prog] body_turn_right [OF assms(1,2), of rest prog]
      lr rl l4 r4 by blast
qed

theorem turn_round_trip_witness:
  "dir (init_state corridor_level [[2, 3, 1]]) = 2
   \<and> loop [[2, 3, 1]] 2 (init_state corridor_level [[2, 3, 1]])
       = ((init_state corridor_level [[2, 3, 1]])\<lparr>stack := [1], steps := 2\<rparr>, LoopEnd)
   \<and> loop [[3, 3, 3, 3]] 4 (init_state corridor_level [[3, 3, 3, 3]])
       = ((init_state corridor_level [[3, 3, 3, 3]])\<lparr>stack := [], steps := 4\<rparr>, LoopEnd)"
  using turn_round_trip [where s = "init_state corridor_level [[2, 3, 1]]" and rest = "[1]"
                           and prog = "[[2, 3, 1]]"]
        turn_round_trip [where s = "init_state corridor_level [[3, 3, 3, 3]]" and rest = "[]"
                           and prog = "[[3, 3, 3, 3]]"]
  by (simp add: init_state_def corridor_level_def INST_defs numeral_2_eq_2)

lemma forward_exit_stars:
  "forward s = (s', Some e) \<Longrightarrow> (e = RetOutOfBounds \<or> e = RetVoid) \<and> stars s' = stars s"
  by (auto simp add: forward_def Let_def split: if_splits)

lemma exec_opcode_exit_stars:
  "exec_opcode prog opcode s = (s', Some e) \<Longrightarrow> (e = RetOutOfBounds \<or> e = RetVoid) \<and> stars s' = stars s"
  by (auto simp add: exec_opcode_def split: if_splits dest: forward_exit_stars)

lemma body_exit_stars:
  assumes "body prog s = (s', Some e)"
  shows "(e = RetWon \<and> stars s' = 0) \<or> ((e = RetOverflow \<or> e = RetOutOfBounds \<or> e = RetVoid) \<and> stars s' \<noteq> 0)"
proof (cases "stars s = 0")
  case True
  then show ?thesis using assms by (simp add: body_def)
next
  case ns: False
  show ?thesis
  proof (cases "length (stack s) > 100")
    case True
    then show ?thesis using assms ns by (simp add: body_def)
  next
    case False
    show ?thesis
    proof (cases "stack s")
      case Nil
      then show ?thesis using assms ns False by (simp add: body_def)
    next
      case (Cons instr rest)
      then have "body prog s = (s\<lparr>stack := rest, steps := steps s + 1\<rparr>, None)
        \<or> body prog s = exec_opcode prog (instr mod 100) (s\<lparr>stack := rest, steps := steps s + 1\<rparr>)"
        using ns False by (simp add: body_def Let_def)
      then show ?thesis using assms ns exec_opcode_exit_stars [of prog "instr mod 100" "s\<lparr>stack := rest, steps := steps s + 1\<rparr>" s' e]
        by auto
    qed
  qed
qed

lemma loop_exit_stars:
  "loop prog m s = (s', e) \<Longrightarrow>
     (e = RetWon \<and> stars s' = 0) \<or> ((e = RetOverflow \<or> e = RetOutOfBounds \<or> e = RetVoid) \<and> stars s' \<noteq> 0)
     \<or> e = LoopEnd"
proof (induction prog m s rule: loop.induct)
  case (1 prog maxSteps s)
  show ?case
  proof (cases "steps s < maxSteps \<and> stack s \<noteq> []")
    case False
    then show ?thesis using 1(2) loop_end [of s maxSteps prog] by simp
  next
    case True
    obtain s1 r where b: "body prog s = (s1, r)" by (cases "body prog s")
    show ?thesis
    proof (cases r)
      case None
      then have "loop prog maxSteps s = loop prog maxSteps s1"
        using True b loop_continue by simp
      then show ?thesis using 1(1) [OF True b [symmetric] None] 1(2) by simp
    next
      case (Some e1)
      then have "loop prog maxSteps s = (s1, e1)" using True b loop_exit by simp
      then show ?thesis using body_exit_stars [of prog s s1 e1] b Some 1(2) by auto
    qed
  qed
qed

text \<open>
  Claim C8, as the code has it. The object returned by \<open>executeProgram\<close> is
  \<open>{solved: true, steps}\<close> exactly when no star is left where the run stops, and
  \<open>{solved: false}\<close> otherwise: it is what remains of the outcome of the specification
  once the three failure reasons are merged into one value.
\<close>

theorem result_is_solved_flag:
  "executeProgram lv p m = outcome_result (spec_outcome (loop p m (init_state lv p)))
   \<and> executeProgram lv p m =
       (if stars (fst (loop p m (init_state lv p))) = 0
        then Solved (steps (fst (loop p m (init_state lv p)))) else Unsolved)"
proof -
  obtain s e where l: "loop p m (init_state lv p) = (s, e)" by (cases "loop p m (init_state lv p)")
  show ?thesis using loop_exit_stars [OF l] l
    by (auto simp add: executeProgram_def result_of_def spec_outcome_def outcome_result_def)
qed

lemmas vm_eval = body_def exec_opcode_def forward_def paint_def call_def Let_def INST_defs
  dx_def dy_def cell_def set_cell_def

theorem result_is_solved_flag_witness:
  "stars (fst (loop [[2]] 10 (init_state corridor_level [[2]]))) \<noteq> 0
   \<and> executeProgram corridor_level [[2]] 10 = Unsolved"
proof -
  have "loop [[2]] 10 (init_state corridor_level [[2]])
      = ((init_state corridor_level [[2]])\<lparr>dir := 1, stack := [], steps := 1\<rparr>, LoopEnd)"
    by (simp add: loop.simps vm_eval corridor_defs)
  then show ?thesis
    using result_is_solved_flag [of corridor_level "[[2]]" 10]
    by (simp add: init_state_def corridor_level_def spec_outcome_def outcome_result_def)
qed

text \<open>
  Claim C8 as stated fails: a run that dies on a void cell, a run that exhausts its stack
  and a run that reaches the step cap return the same object, so the caller cannot tell
  the failure reasons apart.
\<close>

theorem failure_reasons_not_distinguished:
  "spec_outcome (loop [[2, 1]] 10 (init_state corridor_level [[2, 1]])) = OutDied
   \<and> spec_outcome (loop [[2]] 10 (init_state corridor_level [[2]])) = OutExhausted
   \<and> spec_outcome (loop [[2, 7]] 10 (init_state corridor_level [[2, 7]])) = OutStepLimitReached
   \<and> executeProgram corridor_level [[2, 1]] 10 = executeProgram corridor_level [[2]] 10
   \<and> executeProgram corridor_level [[2]] 10 = executeProgram corridor_level [[2, 7]] 10"
proof -
  have 1: "loop [[2, 1]] 10 (init_state corridor_level [[2, 1]])
      = ((init_state corridor_level [[2, 1]])\<lparr>dir := 1, stack := [], steps := 2\<rparr>, RetVoid)"
    by (simp add: loop.simps vm_eval corridor_defs)
  have 2: "loop [[2]] 10 (init_state corridor_level [[2]])
      = ((init_state corridor_level [[2]])\<lparr>dir := 1, stack := [], steps := 1\<rparr>, LoopEnd)"
    by (simp add: loop.simps vm_eval corridor_defs)
  have 3: "loop [[2, 7]] 10 (init_state corridor_level [[2, 7]])
      = ((init_state corridor_level [[2, 7]])\<lparr>dir := 1, stack := [2, 7], steps := 10\<rparr>, LoopEnd)"
    by (simp add: loop.simps vm_eval corridor_defs)
  show ?thesis
    unfolding executeProgram_def 1 2 3
    by (simp add: spec_outcome_def result_of_def init_state_def corridor_level_def)
qed

lemma show_nat_small: "n < 10 \<Longrightarrow> show_nat n = [digit_char n]"
  by (simp add: show_nat.simps [of n])

lemma show_nat_Suc_0: "show_nat (Suc 0) = ''1''"
  by (simp add: show_nat.simps [of "Suc 0"] digit_char_def)

lemma step_fires:
  assumes "engine_state g = Some s" and "status s \<noteq> Won" and "status s \<noteq> Failed"
    and "stars s \<noteq> 0" and "length (stack s) \<le> 100" and "stack s = instr # rest"
    and "instr div 100 = 0 \<or> cell (board s) (xpos s) (ypos s) mod 4 = instr div 100"
  shows "step g =
     (case executeOpcode (engine_programFunctions g) (instr mod 100)
             (s\<lparr>stack := rest, steps := steps s + 1\<rparr>) of
        (s2, result) \<Rightarrow>
          if \<not> result then (g\<lparr>engine_state := Some (s2\<lparr>status := Failed\<rparr>)\<rparr>, False)
          else (g\<lparr>engine_state := Some s2\<rparr>, True))"
  using assms by (auto simp add: step_def Let_def)

lemma executeOpcode_call:
  assumes "opcode = INST_F0 + n" and "n < 3"
  shows "executeOpcode pf opcode s = callFunction pf n s"
  using assms by (auto simp add: executeOpcode_def INST_defs)

text \<open>
  Claim C9, as the code has it. Let a call of function \<open>n\<close> fire (no condition, or a
  matching one) in a state \<open>s\<close> of the engine; \<open>state.truncate s\<close> is the same state
  without the engine's status and message, as \<open>executeProgram\<close> holds it. In
  \<open>Solver.executeProgram\<close> a call of an empty or undefined slot only pops the
  instruction and counts a step. In \<open>GameEngine\<close> a call of an empty slot does the
  same, sets the message and returns true; a call of an undefined slot (or with no
  program loaded) sets the message \<open>Function Fn not defined\<close>, fails the run and
  returns false.
\<close>

theorem call_empty_or_undefined:
  assumes "stars s \<noteq> 0" and "length (stack s) \<le> 100" and "stack s = instr # rest"
    and "instr div 100 = 0 \<or> cell (board s) (xpos s) (ypos s) mod 4 = instr div 100"
    and "instr mod 100 = INST_F0 + n" and "n < 3"
    and "status s \<noteq> Won" and "status s \<noteq> Failed" and "engine_state g = Some s"
    and "popped = s\<lparr>stack := rest, steps := steps s + 1\<rparr>"
  shows "(\<not> n < length prog \<or> prog ! n = [] \<longrightarrow>
            body prog (state.truncate s) = (state.truncate popped, None))
       \<and> (engine_programFunctions g = Some prog \<and> n < length prog \<and> prog ! n = [] \<longrightarrow>
            step g = (g\<lparr>engine_state := Some (popped\<lparr>message :=
                          ''Called F'' @ show_nat n @ '' (prepended 0 instructions)''\<rparr>)\<rparr>, True))
       \<and> (engine_programFunctions g = None
            \<or> engine_programFunctions g = Some prog \<and> \<not> n < length prog \<longrightarrow>
            step g = (g\<lparr>engine_state := Some (popped\<lparr>message :=
                          ''Function F'' @ show_nat n @ '' not defined'', status := Failed\<rparr>)\<rparr>, False))"
proof -
  have h: "stars (state.truncate s) \<noteq> 0" "length (stack (state.truncate s)) \<le> 100"
    "stack (state.truncate s) = instr # rest"
    "instr div 100 = 0 \<or> cell (board (state.truncate s)) (xpos (state.truncate s)) (ypos (state.truncate s)) mod 4 = instr div 100"
    using assms(1-4) by (simp_all add: state.truncate_def)
  have a: "body prog (state.truncate s) = (state.truncate popped, None)"
    if "\<not> n < length prog \<or> prog ! n = []"
    using body_call [OF h assms(5,6), of prog] that assms(10)
    by (auto simp add: call_def state.truncate_def)
  have st: "step g = (case callFunction (engine_programFunctions g) n popped of
        (s2, result) \<Rightarrow>
          if \<not> result then (g\<lparr>engine_state := Some (s2\<lparr>status := Failed\<rparr>)\<rparr>, False)
          else (g\<lparr>engine_state := Some s2\<rparr>, True))"
    using step_fires [OF assms(9,7,8,1,2,3,4)] executeOpcode_call [OF assms(5,6)] assms(10) by simp
  have b: "step g = (g\<lparr>engine_state := Some (popped\<lparr>message :=
                          ''Called F'' @ show_nat n @ '' (prepended 0 instructions)''\<rparr>)\<rparr>, True)"
    if "engine_programFunctions g = Some prog \<and> n < length prog \<and> prog ! n = []"
    using st that assms(10) by (simp add: callFunction_def show_nat.simps [of 0] digit_char_def)
  have c: "step g = (g\<lparr>engine_state := Some (popped\<lparr>message :=
                          ''Function F'' @ show_nat n @ '' not defined'', status := Failed\<rparr>)\<rparr>, False)"
    if "engine_programFunctions g = None
            \<or> engine_programFunctions g = Some prog \<and> \<not> n < length prog"
    using st that by (auto simp add: callFunction_def)
  show ?thesis using a b c by blast
qed

lemmas engine_eval = step_def executeOpcode_def callFunction_def loadProgram_def loadLevel_def
  new_engine_def Let_def INST_defs

theorem call_empty_or_undefined_witness:
  "body [[8]] (init_state corridor_level [[8]])
     = ((init_state corridor_level [[8]])\<lparr>stack := [], steps := 1\<rparr>, None)
   \<and> snd (step (loadProgram [[8], []] (loadLevel corridor_level new_engine)))
   \<and> \<not> snd (step (loadProgram [[8]] (loadLevel corridor_level new_engine)))"
proof -
  let ?s = "\<lparr>xpos = 3, ypos = 5, dir = 2, stars = 1, board = corridor_board, stack = [8],
      steps = 0, status = Ready, message = ''Program loaded''\<rparr>"
  let ?g1 = "loadProgram [[8]] (loadLevel corridor_level new_engine)"
  let ?g2 = "loadProgram [[8], []] (loadLevel corridor_level new_engine)"
  have g1: "engine_state ?g1 = Some ?s" "engine_programFunctions ?g1 = Some [[8]]"
    by (simp_all add: loadProgram_def loadLevel_def new_engine_def corridor_level_def)
  have g2: "engine_state ?g2 = Some ?s" "engine_programFunctions ?g2 = Some [[8], []]"
    by (simp_all add: loadProgram_def loadLevel_def new_engine_def corridor_level_def)
  have h: "stars ?s \<noteq> 0" "length (stack ?s) \<le> 100" "stack ?s = 8 # []"
    "(8::nat) div 100 = 0 \<or> cell (board ?s) (xpos ?s) (ypos ?s) mod 4 = 8 div 100"
    "8 mod 100 = INST_F0 + 1" "(1::nat) < 3" "status ?s \<noteq> Won" "status ?s \<noteq> Failed"
    by (simp_all add: INST_defs)
  have t: "state.truncate ?s = init_state corridor_level [[8]]"
    by (simp add: state.truncate_def init_state_def corridor_level_def)
  show ?thesis
    using call_empty_or_undefined [OF h g1(1) refl, of "[[8]]"]
      call_empty_or_undefined [OF h g2(1) refl, of "[[8], []]"] g1(2) g2(2) t
    by (simp add: state.truncate_def init_state_def corridor_level_def)
qed

text \<open>
  Claim C9 as stated fails in \<open>GameEngine\<close>: with the one-function program
  \<open>F0 = [Call1]\<close> loaded, the first step calls the undefined function 1 and the run
  fails.
\<close>

theorem call_undefined_fails_in_engine:
  "snd (step (loadProgram [[8]] (loadLevel corridor_level new_engine))) = False
   \<and> map_option status (engine_state (fst (step (loadProgram [[8]] (loadLevel corridor_level new_engine)))))
       = Some Failed
   \<and> map_option message (engine_state (fst (step (loadProgram [[8]] (loadLevel corridor_level new_engine)))))
       = Some ''Function F1 not defined''"
  by (simp add: engine_eval corridor_level_def show_nat_Suc_0)

text \<open>
  Claim C7. In \<open>ConstraintSolver\<close>, extending a slot with an unconditional call sets
  \<open>terminated\<close>, and \<open>getValidInstructions\<close> then offers no instruction for the next
  position; the same call under a condition leaves \<open>terminated\<close> as it was, and in a
  slot that was not terminated every instruction stays admissible after it. In
  \<open>FinalSolver.isValidSequence\<close> a position that follows an unconditional call is
  rejected and a position that follows a conditional call is accepted.
\<close>

theorem post_call_termination:
  assumes "op = INST_F0 \<or> op = INST_F1 \<or> op = INST_F2"
  shows "terminated (propagateConstraints c op pos maxLen)
       \<and> getValidInstructions (propagateConstraints c op pos maxLen) allInstructions = []
       \<and> (0 < cond \<longrightarrow>
            terminated (propagateConstraints c (cond * 100 + op) pos maxLen) = terminated c
            \<and> (\<not> terminated c \<longrightarrow>
                 getValidInstructions (propagateConstraints c (cond * 100 + op) pos maxLen) allInstructions
                   = allInstructions))
       \<and> (0 < p \<and> sequence ! (p - 1) = op \<longrightarrow> \<not> isValidSequence sequence p)
       \<and> (0 < p \<and> 0 < cond \<and> sequence ! (p - 1) = cond * 100 + op \<longrightarrow> isValidSequence sequence p)"
proof -
  have op: "op div 100 = 0" "op mod 100 = op" "(cond * 100 + op) mod 100 = op"
    using assms by (auto simp add: INST_defs)
  have cd: "(cond * 100 + op) div 100 = cond"
    using assms by (auto simp add: INST_defs)
  have nt: "op \<noteq> INST_TL" "op \<noteq> INST_TR" "op \<noteq> INST_P1" "op \<noteq> INST_P2" "op \<noteq> INST_P3"
    using assms by (auto simp add: INST_defs)
  have 1: "terminated (propagateConstraints c op pos maxLen)"
    using assms nt by (simp add: propagateConstraints_def Let_def op)
  have 2: "getValidInstructions (propagateConstraints c op pos maxLen) allInstructions = []"
    using 1 by (simp add: getValidInstructions_def)
  have 3: "propagateConstraints c (cond * 100 + op) pos maxLen
        = c\<lparr>leftTurns := 0, rightTurns := 0, noLeftTurn := False, noRightTurn := False\<rparr>"
    if "0 < cond"
    using that nt by (simp add: propagateConstraints_def Let_def op cd)
  have 4: "\<not> isValidSequence sequence p" if "0 < p \<and> sequence ! (p - 1) = op"
    using that assms by (auto simp add: isValidSequence_def Let_def op)
  have 5: "isValidSequence sequence p" if "0 < p \<and> 0 < cond \<and> sequence ! (p - 1) = cond * 100 + op"
    using that nt by (simp add: isValidSequence_def Let_def op cd)
  show ?thesis using 1 2 3 4 5 by (simp add: getValidInstructions_def)
qed

theorem post_call_termination_witness:
  "getValidInstructions (propagateConstraints initial_constraints 7 0 2) [1, 2, 7, 107] = []
   \<and> getValidInstructions (propagateConstraints initial_constraints 107 0 2) [1, 2, 7, 107]
       = [1, 2, 7, 107]
   \<and> \<not> isValidSequence [7, 1] 1 \<and> isValidSequence [107, 1] 1"
  using post_call_termination [where op = 7 and cond = 1 and c = initial_constraints and pos = 0
      and maxLen = 2 and allInstructions = "[1, 2, 7, 107]" and p = 1 and sequence = "[7, 1]"]
    post_call_termination [where op = 7 and cond = 1 and c = initial_constraints and pos = 0
      and maxLen = 2 and allInstructions = "[1, 2, 7, 107]" and p = 1 and sequence = "[107, 1]"]
  by (simp add: INST_defs initial_constraints_def)

lemma body_forward_ok:
  assumes "stars s \<noteq> 0" and "length (stack s) \<le> 100" and "stack s = INST_FW # rest"
    and "newX = xpos s + dx ! dir s" and "newY = ypos s + dy ! dir s"
    and "0 \<le> newX" "newX < 16" "0 \<le> newY" "newY < 16"
    and "cell (board s) newX newY \<noteq> 0"
  shows "body prog s =
     (if cell (board s) newX newY > 3
      then s\<lparr>stack := rest, steps := steps s + 1, xpos := newX, ypos := newY,
             board := set_cell (board s) newX newY (cell (board s) newX newY - 4),
             stars := stars s - 1\<rparr>
      else s\<lparr>stack := rest, steps := steps s + 1, xpos := newX, ypos := newY\<rparr>, None)"
proof -
  have "body prog s = forward (s\<lparr>stack := rest, steps := steps s + 1\<rparr>)"
    using body_fires [OF assms(1,2,3), of prog] by (simp add: exec_opcode_def INST_defs)
  then show ?thesis using assms(4-10) by (auto simp add: forward_def Let_def)
qed

lemma in_1_5: "k \<in> {1..5::nat} \<Longrightarrow> k = 1 \<or> k = 2 \<or> k = 3 \<or> k = 4 \<or> k = 5"
  by auto

lemma in_1_4: "k \<in> {1..4::nat} \<Longrightarrow> k = 1 \<or> k = 2 \<or> k = 3 \<or> k = 4"
  by auto

text \<open>
  Claim C1. When an unconditional call of a defined function \<open>n\<close> is popped, the whole
  body of function \<open>n\<close> is put in front of the rest of the stack, and the run goes on
  from there. In particular, on a well-formed level with one remaining star whose five
  cells straight ahead of the robot are inside the grid, the first four coloured without
  a star and the fifth holding a star, the program \<open>F0 = [Forward, Call0]\<close> is solved
  after 9 raw steps (five forward moves and four calls in between): with a step cap of
  at least 9 the run returns solved with 9 steps, the robot stands five cells ahead, the
  star is cleared and a \<open>Call0\<close> is still pending; with a smaller cap the star has not
  been reached and the run returns unsolved.
\<close>

theorem call_prepends_body:
  "(stars s \<noteq> 0 \<and> length (stack s) \<le> 100 \<and> stack s = (INST_F0 + n) # rest \<and> n < 3
      \<and> n < length prog \<longrightarrow>
      body prog s = (s\<lparr>stack := prog ! n @ rest, steps := steps s + 1\<rparr>, None)
      \<and> (steps s < maxSteps \<longrightarrow>
           loop prog maxSteps s
             = loop prog maxSteps (s\<lparr>stack := prog ! n @ rest, steps := steps s + 1\<rparr>)))
   \<and> (wf_level lv \<and> level_stars lv = 1
      \<and> (\<forall>k \<in> {1..5}. 0 \<le> player_x lv + int k * dx ! player_direction lv
                       \<and> player_x lv + int k * dx ! player_direction lv < 16
                       \<and> 0 \<le> player_y lv + int k * dy ! player_direction lv
                       \<and> player_y lv + int k * dy ! player_direction lv < 16)
      \<and> (\<forall>k \<in> {1..4}. cell (level_board lv) (player_x lv + int k * dx ! player_direction lv)
                          (player_y lv + int k * dy ! player_direction lv) \<in> {1, 2, 3})
      \<and> cell (level_board lv) (player_x lv + 5 * dx ! player_direction lv)
                          (player_y lv + 5 * dy ! player_direction lv) > 3
      \<and> p \<noteq> [] \<and> p ! 0 = [INST_FW, INST_F0] \<longrightarrow>
      executeProgram lv p m = (if 9 \<le> m then Solved 9 else Unsolved)
      \<and> (9 \<le> m \<longrightarrow>
           fst (loop p m (init_state lv p))
             = (init_state lv p)
                 \<lparr>xpos := player_x lv + 5 * dx ! player_direction lv,
                  ypos := player_y lv + 5 * dy ! player_direction lv,
                  board := set_cell (level_board lv)
                     (player_x lv + 5 * dx ! player_direction lv)
                     (player_y lv + 5 * dy ! player_direction lv)
                     (cell (level_board lv) (player_x lv + 5 * dx ! player_direction lv)
                                            (player_y lv + 5 * dy ! player_direction lv) - 4),
                  stars := 0, stack := [INST_F0], steps := 9\<rparr>))"
proof -
  have part1: "body prog s = (s\<lparr>stack := prog ! n @ rest, steps := steps s + 1\<rparr>, None)
      \<and> (steps s < maxSteps \<longrightarrow>
           loop prog maxSteps s
             = loop prog maxSteps (s\<lparr>stack := prog ! n @ rest, steps := steps s + 1\<rparr>))"
    if h: "stars s \<noteq> 0" "length (stack s) \<le> 100" "stack s = (INST_F0 + n) # rest" "n < 3"
      "n < length prog"
  proof -
    have f: "(INST_F0 + n) div 100 = 0 \<or> cell (board s) (xpos s) (ypos s) mod 4 = (INST_F0 + n) div 100"
      "(INST_F0 + n) mod 100 = INST_F0 + n"
      using h(4) by (simp_all add: INST_defs)
    have b: "body prog s = (s\<lparr>stack := prog ! n @ rest, steps := steps s + 1\<rparr>, None)"
      using body_call [OF h(1,2,3) f h(4), of prog] h(5) by (simp add: call_def)
    show ?thesis using b loop_continue [OF _ _ b, of maxSteps] h(3) by simp
  qed
  have part2: "executeProgram lv p m = (if 9 \<le> m then Solved 9 else Unsolved)
      \<and> (9 \<le> m \<longrightarrow>
           fst (loop p m (init_state lv p))
             = (init_state lv p)
                 \<lparr>xpos := player_x lv + 5 * dx ! player_direction lv,
                  ypos := player_y lv + 5 * dy ! player_direction lv,
                  board := set_cell (level_board lv)
                     (player_x lv + 5 * dx ! player_direction lv)
                     (player_y lv + 5 * dy ! player_direction lv)
                     (cell (level_board lv) (player_x lv + 5 * dx ! player_direction lv)
                                            (player_y lv + 5 * dy ! player_direction lv) - 4),
                  stars := 0, stack := [INST_F0], steps := 9\<rparr>)"
    if wf: "wf_level lv" and st: "level_stars lv = 1"
      and inb: "\<forall>k \<in> {1..5}. 0 \<le> player_x lv + int k * dx ! player_direction lv
                       \<and> player_x lv + int k * dx ! player_direction lv < 16
                       \<and> 0 \<le> player_y lv + int k * dy ! player_direction lv
                       \<and> player_y lv + int k * dy ! player_direction lv < 16"
      and path: "\<forall>k \<in> {1..4}. cell (level_board lv) (player_x lv + int k * dx ! player_direction lv)
                          (player_y lv + int k * dy ! player_direction lv) \<in> {1, 2, 3}"
      and star: "cell (level_board lv) (player_x lv + 5 * dx ! player_direction lv)
                          (player_y lv + 5 * dy ! player_direction lv) > 3"
      and pr: "p \<noteq> []" "p ! 0 = [INST_FW, INST_F0]"
  proof -
    define ddx where "ddx = dx ! player_direction lv"
    define ddy where "ddy = dy ! player_direction lv"
    define X where "X k = player_x lv + int k * ddx" for k
    define Y where "Y k = player_y lv + int k * ddy" for k
    define b where "b = level_board lv"
    define S where "S k = \<lparr>xpos = X ((k + 1) div 2), ypos = Y ((k + 1) div 2),
        dir = player_direction lv, stars = 1, board = b,
        stack = (if even k then [INST_FW, INST_F0] else [INST_F0]), steps = k\<rparr>" for k
    define F where "F = \<lparr>xpos = X 5, ypos = Y 5, dir = player_direction lv, stars = 0,
        board = set_cell b (X 5) (Y 5) (cell b (X 5) (Y 5) - 4), stack = [INST_F0], steps = 9\<rparr>"
    have s0: "init_state lv p = S 0"
      using pr st by (simp add: init_state_def S_def X_def Y_def b_def)
    have inb': "0 \<le> X k \<and> X k < 16 \<and> 0 \<le> Y k \<and> Y k < 16" if "1 \<le> k" "k \<le> 5" for k
      using inb that by (simp add: X_def Y_def ddx_def ddy_def)
    have path': "cell b (X k) (Y k) \<noteq> 0 \<and> \<not> cell b (X k) (Y k) > 3" if "1 \<le> k" "k \<le> 4" for k
    proof -
      have "cell b (X k) (Y k) \<in> {1, 2, 3}"
        using path that by (simp add: X_def Y_def ddx_def ddy_def b_def)
      then show ?thesis by auto
    qed
    have star': "cell b (X 5) (Y 5) > 3"
      using star by (simp add: X_def Y_def ddx_def ddy_def b_def)
    have nxt: "X j + dx ! player_direction lv = X (Suc j)" "Y j + dy ! player_direction lv = Y (Suc j)"
      for j
      by (simp_all add: X_def Y_def ddx_def ddy_def algebra_simps)
    have even_step: "body p (S k) = (S (Suc k), None)" if ev: "even k" and k8: "k < 8" for k
    proof -
      obtain j where j: "k = 2 * j" using ev by (auto elim: evenE)
      then have j4: "j < 4" using k8 by simp
      have hd: "(k + 1) div 2 = j" "(Suc k + 1) div 2 = Suc j" "k div 2 = j" using j by simp_all
      have "body p (S k) =
        (if cell (board (S k)) (X (Suc j)) (Y (Suc j)) > 3
         then (S k)\<lparr>stack := [INST_F0], steps := steps (S k) + 1, xpos := X (Suc j), ypos := Y (Suc j),
             board := set_cell (board (S k)) (X (Suc j)) (Y (Suc j)) (cell (board (S k)) (X (Suc j)) (Y (Suc j)) - 4),
             stars := stars (S k) - 1\<rparr>
         else (S k)\<lparr>stack := [INST_F0], steps := steps (S k) + 1, xpos := X (Suc j), ypos := Y (Suc j)\<rparr>, None)"
        using inb' [of "Suc j"] path' [of "Suc j"] j4 ev
        by (intro body_forward_ok) (simp_all add: S_def hd nxt)
      then show ?thesis using path' [of "Suc j"] j4 ev by (simp add: S_def hd)
    qed
    have odd_step: "body p (S k) = (S (Suc k), None)" if od: "odd k" and k8: "k < 8" for k
    proof -
      have f: "stars (S k) \<noteq> 0" "length (stack (S k)) \<le> 100" "stack (S k) = INST_F0 # []"
        "INST_F0 div 100 = 0 \<or> cell (board (S k)) (xpos (S k)) (ypos (S k)) mod 4 = INST_F0 div 100"
        "INST_F0 mod 100 = INST_F0 + 0" "(0::nat) < 3"
        using od by (simp_all add: S_def INST_defs)
      have "body p (S k) = (call p 0 ((S k)\<lparr>stack := [], steps := steps (S k) + 1\<rparr>), None)"
        by (rule body_call [OF f])
      then show ?thesis using pr od by (simp add: call_def S_def)
    qed
    have last_step: "body p (S 8) = (F, None)"
    proof -
      have "body p (S 8) =
        (if cell (board (S 8)) (X 5) (Y 5) > 3
         then (S 8)\<lparr>stack := [INST_F0], steps := steps (S 8) + 1, xpos := X 5, ypos := Y 5,
             board := set_cell (board (S 8)) (X 5) (Y 5) (cell (board (S 8)) (X 5) (Y 5) - 4),
             stars := stars (S 8) - 1\<rparr>
         else (S 8)\<lparr>stack := [INST_F0], steps := steps (S 8) + 1, xpos := X 5, ypos := Y 5\<rparr>, None)"
        using inb' [of 5] star' nxt [of 4]
        by (intro body_forward_ok) (simp_all add: S_def)
      then show ?thesis using star' by (simp add: S_def F_def)
    qed
    have any_step: "body p (S k) = (S (Suc k), None)" if "k < 8" for k
      using even_step odd_step that by blast
    have run: "loop p m (S 0) = loop p m (S k)" if "k \<le> 8" "k \<le> m" for k
      using that
    proof (induction k)
      case 0
      then show ?case by simp
    next
      case (Suc k)
      have "loop p m (S k) = loop p m (S (Suc k))"
        using Suc.prems by (intro loop_continue [OF _ _ any_step]) (simp_all add: S_def)
      then show ?case using Suc by simp
    qed
    show ?thesis
    proof (cases "9 \<le> m")
      case True
      have "loop p m (S 0) = loop p m (S 8)" using run [of 8] True by simp
      also have "\<dots> = loop p m F"
        using True by (intro loop_continue [OF _ _ last_step]) (simp_all add: S_def)
      finally have l: "loop p m (S 0) = loop p m F" .
      have "loop p m F = (F, RetWon) \<or> loop p m F = (F, LoopEnd)"
      proof (cases "9 < m")
        case True
        have "body p F = (F, Some RetWon)" by (simp add: body_def F_def)
        then have "loop p m F = (F, RetWon)"
          using True by (intro loop_exit) (simp_all add: F_def)
        then show ?thesis by simp
      next
        case False
        then have "loop p m F = (F, LoopEnd)" by (intro loop_end) (simp add: F_def)
        then show ?thesis by simp
      qed
      then have "result_of (loop p m F) = Solved 9 \<and> fst (loop p m F) = F"
        by (auto simp add: result_of_def F_def)
      then have r: "executeProgram lv p m = Solved 9" "fst (loop p m (init_state lv p)) = F"
        using l s0 by (simp_all add: executeProgram_def)
      have Feq: "F = (init_state lv p)
                 \<lparr>xpos := player_x lv + 5 * dx ! player_direction lv,
                  ypos := player_y lv + 5 * dy ! player_direction lv,
                  board := set_cell (level_board lv)
                     (player_x lv + 5 * dx ! player_direction lv)
                     (player_y lv + 5 * dy ! player_direction lv)
                     (cell (level_board lv) (player_x lv + 5 * dx ! player_direction lv)
                                            (player_y lv + 5 * dy ! player_direction lv) - 4),
                  stars := 0, stack := [INST_F0], steps := 9\<rparr>"
        by (simp add: F_def init_state_def X_def Y_def b_def ddx_def ddy_def)
      show ?thesis using True r(1) r(2) [unfolded Feq] by simp
    next
      case False
      then have m8: "m \<le> 8" by simp
      have "loop p m (S 0) = loop p m (S m)" using run [of m] m8 by simp
      also have "\<dots> = (S m, LoopEnd)" by (intro loop_end) (simp add: S_def)
      finally show ?thesis using False s0 by (simp add: executeProgram_def result_of_def S_def)
    qed
  qed
  show ?thesis using part1 part2 by blast
qed


theorem call_prepends_body_witness:
  "wf_level corridor_level
   \<and> executeProgram corridor_level [[1, 7]] 10000 = Solved 9
   \<and> executeProgram corridor_level [[1, 7]] 8 = Unsolved
   \<and> xpos (fst (loop [[1, 7]] 10000 (init_state corridor_level [[1, 7]]))) = 8
   \<and> body [[1, 7]] ((init_state corridor_level [[1, 7]])\<lparr>stack := [7]\<rparr>)
       = ((init_state corridor_level [[1, 7]])\<lparr>stack := [1, 7], steps := 1\<rparr>, None)"
proof -
  have wf: "wf_level corridor_level"
    by (simp add: wf_level_def corridor_level_def corridor_board_def void_row_def)
  have inb: "\<forall>k \<in> {1..5}. 0 \<le> player_x corridor_level + int k * dx ! player_direction corridor_level
                       \<and> player_x corridor_level + int k * dx ! player_direction corridor_level < 16
                       \<and> 0 \<le> player_y corridor_level + int k * dy ! player_direction corridor_level
                       \<and> player_y corridor_level + int k * dy ! player_direction corridor_level < 16"
  proof
    fix k :: nat
    assume "k \<in> {1..5}"
    then have "k = 1 \<or> k = 2 \<or> k = 3 \<or> k = 4 \<or> k = 5" by (rule in_1_5)
    then show "0 \<le> player_x corridor_level + int k * dx ! player_direction corridor_level
                       \<and> player_x corridor_level + int k * dx ! player_direction corridor_level < 16
                       \<and> 0 \<le> player_y corridor_level + int k * dy ! player_direction corridor_level
                       \<and> player_y corridor_level + int k * dy ! player_direction corridor_level < 16"
      by (elim disjE) (simp_all add: corridor_level_def dx_def dy_def)
  qed
  have path: "\<forall>k \<in> {1..4}. cell (level_board corridor_level)
         (player_x corridor_level + int k * dx ! player_direction corridor_level)
         (player_y corridor_level + int k * dy ! player_direction corridor_level) \<in> {1, 2, 3}"
  proof
    fix k :: nat
    assume "k \<in> {1..4}"
    then have "k = 1 \<or> k = 2 \<or> k = 3 \<or> k = 4" by (rule in_1_4)
    then show "cell (level_board corridor_level)
         (player_x corridor_level + int k * dx ! player_direction corridor_level)
         (player_y corridor_level + int k * dy ! player_direction corridor_level) \<in> {1, 2, 3}"
      by (elim disjE) (simp_all add: corridor_level_def corridor_board_def dx_def dy_def cell_def)
  qed
  have star: "cell (level_board corridor_level)
         (player_x corridor_level + 5 * dx ! player_direction corridor_level)
         (player_y corridor_level + 5 * dy ! player_direction corridor_level) > 3"
    by (simp add: corridor_level_def corridor_board_def dx_def dy_def cell_def)
  have pr: "[[1, 7]] \<noteq> [] \<and> [[1, 7]] ! 0 = [INST_FW, INST_F0]"
    by (simp add: INST_defs)
  have st: "level_stars corridor_level = 1" by (simp add: corridor_level_def)
  note t = call_prepends_body [where lv = corridor_level and p = "[[1, 7]]"
      and s = "(init_state corridor_level [[1, 7]])\<lparr>stack := [7]\<rparr>" and n = 0 and rest = "[]"
      and prog = "[[1, 7]]" and maxSteps = 1]
  show ?thesis
    using t [where m = 10000] t [where m = 8] wf st inb path star pr
    by (simp add: init_state_def corridor_level_def dx_def dy_def INST_defs)
qed

lemma show_nat_digits:
  "show_nat 0 = ''0''" "show_nat (Suc 0) = ''1''" "show_nat 2 = ''2''" "show_nat 3 = ''3''"
  "show_nat 7 = ''7''"
  by (simp_all add: show_nat_small digit_char_def)

lemma key_inj:
  assumes "e < 4" and "e' < 4"
    and "stk = [2, 7] \<or> stk = [7]" and "stk' = [2, 7] \<or> stk' = [7]"
  shows "(hashState \<lparr>xpos = x, ypos = y, dir = e, stars = st, board = b, stack = stk, steps = k\<rparr>
          = hashState \<lparr>xpos = x, ypos = y, dir = e', stars = st, board = b, stack = stk', steps = k'\<rparr>)
         = (e = e' \<and> stk = stk')"
proof -
  have e: "e = 0 \<or> e = 1 \<or> e = 2 \<or> e = 3" using assms(1) by arith
  have e': "e' = 0 \<or> e' = 1 \<or> e' = 2 \<or> e' = 3" using assms(2) by arith
  show ?thesis
    using e e' assms(3,4)
    by (elim disjE) (simp_all add: hashState_def Let_def show_nat_digits)
qed


lemma loop_ld_continue:
  "steps s < m \<Longrightarrow> stack s \<noteq> [] \<Longrightarrow> length (stack s) \<le> 100
    \<Longrightarrow> body_ld prog (c, s) = (cs', None) \<Longrightarrow> loop_ld prog m (c, s) = loop_ld prog m cs'"
  by (simp add: loop_ld.simps [of prog m "(c, s)"])

lemma loop_ld_exit:
  "steps s < m \<Longrightarrow> stack s \<noteq> [] \<Longrightarrow> length (stack s) \<le> 100
    \<Longrightarrow> body_ld prog (c, s) = (cs', Some e) \<Longrightarrow> loop_ld prog m (c, s) = (cs', e)"
  by (simp add: loop_ld.simps [of prog m "(c, s)"])

lemma ld_turn_left:
  assumes "st \<noteq> 0" and "k < m" and "length rest < 100"
    and "hashState \<lparr>xpos = x, ypos = y, dir = e, stars = st, board = b, stack = 2 # rest, steps = k\<rparr>
           \<notin> set c"
  shows "loop_ld prog m (c, \<lparr>xpos = x, ypos = y, dir = e, stars = st, board = b,
                             stack = 2 # rest, steps = k\<rparr>)
       = loop_ld prog m
           (hashState \<lparr>xpos = x, ypos = y, dir = e, stars = st, board = b, stack = 2 # rest, steps = k\<rparr> # c,
            \<lparr>xpos = x, ypos = y, dir = (e + 3) mod 4, stars = st, board = b,
             stack = rest, steps = Suc k\<rparr>)"
  using assms
  by (intro loop_ld_continue) (simp_all add: body_ld_def Let_def exec_opcode_ne_def INST_defs)

lemma ld_call0:
  assumes "st \<noteq> 0" and "k < m" and "length rest < 100"
    and "hashState \<lparr>xpos = x, ypos = y, dir = e, stars = st, board = b, stack = 7 # rest, steps = k\<rparr>
           \<notin> set c"
    and "prog \<noteq> []" and "prog ! 0 \<noteq> []"
  shows "loop_ld prog m (c, \<lparr>xpos = x, ypos = y, dir = e, stars = st, board = b,
                             stack = 7 # rest, steps = k\<rparr>)
       = loop_ld prog m
           (hashState \<lparr>xpos = x, ypos = y, dir = e, stars = st, board = b, stack = 7 # rest, steps = k\<rparr> # c,
            \<lparr>xpos = x, ypos = y, dir = e, stars = st, board = b,
             stack = prog ! 0 @ rest, steps = Suc k\<rparr>)"
  using assms
  by (intro loop_ld_continue)
     (simp_all add: body_ld_def Let_def exec_opcode_ne_def call_nonempty_def INST_defs)

lemma ld_hit:
  assumes "stars s \<noteq> 0" and "steps s < m" and "stack s \<noteq> []" and "length (stack s) \<le> 100"
    and "hashState s \<in> set c"
  shows "loop_ld prog m (c, s) = ((c, s), RetLoop)"
  using assms by (intro loop_ld_exit) (simp_all add: body_ld_def Let_def)

lemma rotation_detected:
  assumes e: "e0 < 4" "e1 < 4" "e2 < 4" "e3 < 4"
    and t: "(e0 + 3) mod 4 = e1" "(e1 + 3) mod 4 = e2" "(e2 + 3) mod 4 = e3" "(e3 + 3) mod 4 = e0"
    and ne: "e0 \<noteq> e1" "e0 \<noteq> e2" "e0 \<noteq> e3" "e1 \<noteq> e2" "e1 \<noteq> e3" "e2 \<noteq> e3"
    and st: "st \<noteq> 0" and m: "9 \<le> m" and p: "p \<noteq> []" "p ! 0 = [2, 7]"
  shows "\<exists>c. loop_ld p m ([], \<lparr>xpos = x, ypos = y, dir = e0, stars = st, board = b,
                               stack = [2, 7], steps = 0\<rparr>)
          = ((c, \<lparr>xpos = x, ypos = y, dir = e0, stars = st, board = b, stack = [2, 7], steps = 8\<rparr>),
             RetLoop) \<and> length c = 8"
proof -
  define S where "S d stk k = \<lparr>xpos = x, ypos = y, dir = d, stars = st, board = b,
                               stack = stk, steps = k\<rparr>" for d stk k
  define K where "K d stk = hashState (S d stk 0)" for d stk
  have KS: "hashState (S d stk k) = K d stk" for d stk k
    by (simp add: K_def S_def hashState_def)
  have inj: "(K d stk = K d' stk') = (d = d' \<and> stk = stk')"
    if "d < 4" "d' < 4" "stk = [2, 7] \<or> stk = [7]" "stk' = [2, 7] \<or> stk' = [7]" for d d' stk stk'
    unfolding K_def S_def by (rule key_inj [OF that])
  have turn: "loop_ld p m (c, S d [2, 7] k) = loop_ld p m (K d [2, 7] # c, S ((d + 3) mod 4) [7] (Suc k))"
    if "k < m" "K d [2, 7] \<notin> set c" for c d k
    using ld_turn_left [of st k m "[7]" x y d b c p] that st by (simp add: S_def K_def hashState_def)
  have call: "loop_ld p m (c, S d [7] k) = loop_ld p m (K d [7] # c, S d [2, 7] (Suc k))"
    if "k < m" "K d [7] \<notin> set c" for c d k
    using ld_call0 [of st k m "[]" x y d b c p] that st p by (simp add: S_def K_def hashState_def)
  have m': "0 < m" "1 < m" "2 < m" "3 < m" "4 < m" "5 < m" "6 < m" "7 < m" "8 < m" "Suc 0 < m"
    using m by simp_all
  let ?c1 = "[K e0 [2, 7]]"
  let ?c2 = "K e1 [7] # ?c1"
  let ?c3 = "K e1 [2, 7] # ?c2"
  let ?c4 = "K e2 [7] # ?c3"
  let ?c5 = "K e2 [2, 7] # ?c4"
  let ?c6 = "K e3 [7] # ?c5"
  let ?c7 = "K e3 [2, 7] # ?c6"
  let ?c8 = "K e0 [7] # ?c7"
  have 1: "loop_ld p m ([], S e0 [2, 7] 0) = loop_ld p m (?c1, S e1 [7] 1)"
    using turn [of 0 e0 "[]"] m' t by simp
  have dist: "distinct [K e0 [2, 7], K e1 [7], K e1 [2, 7], K e2 [7], K e2 [2, 7], K e3 [7],
      K e3 [2, 7], K e0 [7]]"
    using e ne by (simp add: inj)
  have dist': "distinct (rev [K e0 [2, 7], K e1 [7], K e1 [2, 7], K e2 [7], K e2 [2, 7], K e3 [7],
      K e3 [2, 7], K e0 [7]])"
    using dist by (simp only: distinct_rev)
  have n2: "Suc (Suc 0) = 2" by simp
  have 2: "loop_ld p m (?c1, S e1 [7] 1) = loop_ld p m (?c2, S e1 [2, 7] 2)"
    using call [of 1 e1 ?c1] m' dist dist' by (simp add: n2)
  have 3: "loop_ld p m (?c2, S e1 [2, 7] 2) = loop_ld p m (?c3, S e2 [7] 3)"
    using turn [of 2 e1 ?c2] m' dist dist' t by (simp add: n2)
  have 4: "loop_ld p m (?c3, S e2 [7] 3) = loop_ld p m (?c4, S e2 [2, 7] 4)"
    using call [of 3 e2 ?c3] m' dist dist' by (simp add: n2)
  have 5: "loop_ld p m (?c4, S e2 [2, 7] 4) = loop_ld p m (?c5, S e3 [7] 5)"
    using turn [of 4 e2 ?c4] m' dist dist' t by (simp add: n2)
  have 6: "loop_ld p m (?c5, S e3 [7] 5) = loop_ld p m (?c6, S e3 [2, 7] 6)"
    using call [of 5 e3 ?c5] m' dist dist' by (simp add: n2)
  have 7: "loop_ld p m (?c6, S e3 [2, 7] 6) = loop_ld p m (?c7, S e0 [7] 7)"
    using turn [of 6 e3 ?c6] m' dist dist' t by (simp add: n2)
  have 8: "loop_ld p m (?c7, S e0 [7] 7) = loop_ld p m (?c8, S e0 [2, 7] 8)"
    using call [of 7 e0 ?c7] m' dist dist' by (simp add: n2)
  have 9: "loop_ld p m (?c8, S e0 [2, 7] 8) = ((?c8, S e0 [2, 7] 8), RetLoop)"
  proof (rule ld_hit)
    show "stars (S e0 [2, 7] 8) \<noteq> 0" using st by (simp add: S_def)
    show "steps (S e0 [2, 7] 8) < m" using m by (simp add: S_def)
    show "stack (S e0 [2, 7] 8) \<noteq> []" by (simp add: S_def)
    show "length (stack (S e0 [2, 7] 8)) \<le> 100" by (simp add: S_def)
    show "hashState (S e0 [2, 7] 8) \<in> set ?c8" by (simp add: KS)
  qed
  have "loop_ld p m ([], S e0 [2, 7] 0) = ((?c8, S e0 [2, 7] 8), RetLoop)"
    using 1 2 3 4 5 6 7 8 9 by (simp only:)
  then show ?thesis
    by (intro exI [of _ ?c8]) (simp add: S_def)
qed


text \<open>
  Claim C6. On any level with at least one remaining star and a direction in
  \<open>{0, 1, 2, 3}\<close>, running \<open>F0 = [TurnLeft, Call0]\<close> with loop detection and a step
  cap of at least 9 (the default is 1000) returns \<open>{solved: false, loopDetected: true}\<close>
  after exactly 8 steps: the eight keys stored on the way are pairwise different, and
  after four turns and four calls the state has the key of the start state again
  (position, direction, stars, board and stack are those of the start).
\<close>

theorem rotation_loop_detected:
  assumes "0 < level_stars lv" and "player_direction lv < 4" and "9 \<le> m"
    and "p \<noteq> []" and "p ! 0 = [INST_TL, INST_F0]"
  shows "executeWithLoopDetection lv p m = LoopDetected
       \<and> snd (fst (loop_ld p m ([], init_state lv p))) = (init_state lv p)\<lparr>steps := 8\<rparr>
       \<and> length (fst (fst (loop_ld p m ([], init_state lv p)))) = 8
       \<and> 8 < m"
proof -
  define d where "d = player_direction lv"
  have d4: "d = 0 \<or> d = 1 \<or> d = 2 \<or> d = 3" using assms(2) unfolding d_def by arith
  have e: "d < 4" "(d + 3) mod 4 < 4" "((d + 3) mod 4 + 3) mod 4 < 4"
    "(((d + 3) mod 4 + 3) mod 4 + 3) mod 4 < 4"
    using assms(2) by (simp_all add: d_def)
  have rt: "((((d + 3) mod 4 + 3) mod 4 + 3) mod 4 + 3) mod 4 = d"
    using assms(2) unfolding d_def by (rule turn_left_4)
  have ne: "d \<noteq> (d + 3) mod 4" "d \<noteq> ((d + 3) mod 4 + 3) mod 4"
    "d \<noteq> (((d + 3) mod 4 + 3) mod 4 + 3) mod 4"
    "(d + 3) mod 4 \<noteq> ((d + 3) mod 4 + 3) mod 4"
    "(d + 3) mod 4 \<noteq> (((d + 3) mod 4 + 3) mod 4 + 3) mod 4"
    "((d + 3) mod 4 + 3) mod 4 \<noteq> (((d + 3) mod 4 + 3) mod 4 + 3) mod 4"
    using d4 by auto
  have st: "level_stars lv \<noteq> 0" using assms(1) by simp
  have p: "p ! 0 = [2, 7]" using assms(5) by (simp add: INST_defs)
  have i: "init_state lv p = \<lparr>xpos = player_x lv, ypos = player_y lv, dir = d,
      stars = level_stars lv, board = level_board lv, stack = [2, 7], steps = 0\<rparr>"
    using assms(4) p by (simp add: init_state_def d_def)
  obtain c where c: "loop_ld p m ([], init_state lv p)
      = ((c, \<lparr>xpos = player_x lv, ypos = player_y lv, dir = d, stars = level_stars lv,
               board = level_board lv, stack = [2, 7], steps = 8\<rparr>), RetLoop)" "length c = 8"
    using rotation_detected [OF e refl refl refl rt ne st assms(3,4) p,
        of "player_x lv" "player_y lv" "level_board lv"]
    unfolding i by blast
  show ?thesis
    using c assms(3) by (simp add: executeWithLoopDetection_def result_of_def i)
qed

theorem rotation_loop_detected_witness:
  "0 < level_stars corridor_level \<and> player_direction corridor_level < 4
   \<and> executeWithLoopDetection corridor_level [[2, 7]] 1000 = LoopDetected
   \<and> steps (snd (fst (loop_ld [[2, 7]] 1000 ([], init_state corridor_level [[2, 7]])))) = 8"
  using rotation_loop_detected [of corridor_level 1000 "[[2, 7]]"]
  by (simp add: corridor_level_def INST_defs)

section \<open>Properties of the synthesis engines\<close>

lemma run_tests_program_irrelevant:
  "run_tests test qs final (st\<lparr>ss_program := b\<rparr>) = run_tests test qs final st"
  by (cases qs) simp_all

lemma run_tests_append:
  "run_tests test (qs @ qs') final st =
     (case run_tests test qs mid st of
        (Some r, st') \<Rightarrow> (Some r, st')
      | (None, st') \<Rightarrow> run_tests test qs' final st')"
proof (induction qs arbitrary: st)
  case Nil
  show ?case by (simp add: run_tests_program_irrelevant)
next
  case (Cons q qs)
  show ?case by (simp add: Cons.IH split: prod.splits option.splits)
qed

lemma set_slot_program: "ss_program (set_slot f pos v st) = put_slot f pos v (ss_program st)"
  by (simp add: set_slot_def put_slot_def)

lemma set_slot_as_update: "set_slot f pos v st = st\<lparr>ss_program := put_slot f pos v (ss_program st)\<rparr>"
  by (simp add: set_slot_def put_slot_def)

lemma run_tests_None_program:
  "run_tests test qs final st = (None, st') \<Longrightarrow> (\<And>s. ss_program (snd (test s)) = ss_program s)
     \<Longrightarrow> ss_program st' = final"
proof (induction qs arbitrary: st)
  case Nil
  then show ?case by auto
next
  case (Cons q qs)
  then show ?case by (auto split: prod.splits option.splits)
qed

lemma fill_refines_aux:
  assumes frame: "\<And>s. ss_program (snd (test s)) = ss_program s"
  shows "refines test k kE \<Longrightarrow> fill_search k f L allI pos c st
           = run_tests test (fst (enum_fill_search kE f L allI pos c (ss_program st)))
               (snd (enum_fill_search kE f L allI pos c (ss_program st))) st"
    and "refines test k kE \<Longrightarrow> fill_for k f L allI pos c l st
           = run_tests test (fst (enum_fill_for kE f L allI pos c l (ss_program st)))
               (snd (enum_fill_for kE f L allI pos c l (ss_program st))) st"
proof (induction k f L allI pos c st and k f L allI pos c l st rule: fill_search_fill_for.induct)
  case (1 onComplete funcIdx targetLen allInstructions pos c st)
  show ?case
  proof (cases "pos \<ge> targetLen")
    case True
    then show ?thesis
      using 1(2) by (simp add: refines_def fill_search.simps enum_fill_search.simps)
  next
    case False
    then show ?thesis using 1 by (simp add: fill_search.simps enum_fill_search.simps)
  qed
next
  case (2 onComplete funcIdx targetLen allInstructions pos c st)
  show ?case by simp
next
  case (3 onComplete funcIdx targetLen allInstructions pos c instr others st)
  let ?st1 = "set_slot funcIdx pos (Some instr) st"
  let ?nc = "propagateConstraints c instr pos targetLen"
  let ?b1 = "put_slot funcIdx pos (Some instr) (ss_program st)"
  obtain qs b2 where e1: "enum_fill_search kE funcIdx targetLen allInstructions (pos + 1) ?nc ?b1 = (qs, b2)"
    by (cases "enum_fill_search kE funcIdx targetLen allInstructions (pos + 1) ?nc ?b1")
  obtain qs' b3 where e2: "enum_fill_for kE funcIdx targetLen allInstructions pos c others
        (put_slot funcIdx pos None b2) = (qs', b3)"
    by (cases "enum_fill_for kE funcIdx targetLen allInstructions pos c others (put_slot funcIdx pos None b2)")
  have ih1: "fill_search onComplete funcIdx targetLen allInstructions (pos + 1) ?nc ?st1
      = run_tests test qs b2 st"
    using 3(1) [OF refl refl 3(3)] e1
    by (simp add: set_slot_program) (simp add: set_slot_as_update run_tests_program_irrelevant)
  show ?case
  proof (cases "run_tests test qs b2 st")
    case (Pair r st2)
    show ?thesis
    proof (cases r)
      case (Some x)
      then show ?thesis
        using ih1 Pair e1 e2 by (simp add: run_tests_append [where mid = b2])
    next
      case None
      have p2: "ss_program st2 = b2"
        using run_tests_None_program [OF _ frame] Pair None by simp
      have fs: "(None, st2) = fill_search onComplete funcIdx targetLen allInstructions (pos + 1) ?nc ?st1"
        using ih1 Pair None by simp
      have "fill_for onComplete funcIdx targetLen allInstructions pos c others (set_slot funcIdx pos None st2)
          = run_tests test qs' b3 st2"
        using 3(2) [OF refl refl fs refl 3(3)] e2 p2
        by (simp add: set_slot_program) (simp add: set_slot_as_update run_tests_program_irrelevant)
      then show ?thesis
        using ih1 Pair None e1 e2 by (simp add: run_tests_append [where mid = b2])
    qed
  qed
qed

lemma fillFunction_refines:
  assumes frame: "\<And>s. ss_program (snd (test s)) = ss_program s"
    and k: "refines test k kE"
  shows "fillFunction k f L allI st
           = run_tests test (fst (enum_fillFunction kE f L allI (ss_program st)))
               (snd (enum_fillFunction kE f L allI (ss_program st))) st"
proof (cases "L = 0")
  case True
  then show ?thesis using k by (simp add: fillFunction_def enum_fillFunction_def refines_def)
next
  case False
  then show ?thesis
    using fill_refines_aux(1) [OF frame k] by (simp add: fillFunction_def enum_fillFunction_def)
qed

lemma tb_refines_aux:
  shows "\<forall>s. ss_program (snd (test s)) = ss_program s \<Longrightarrow> tb_search test fl fo ins tt fi u st
           = run_tests test (fst (enum_tb_search fl fo ins tt fi u (ss_program st)))
               (snd (enum_tb_search fl fo ins tt fi u (ss_program st))) st"
    and "\<forall>s. ss_program (snd (test s)) = ss_program s \<Longrightarrow> tb_for test fl fo ins tt fi u len ml st
           = run_tests test (fst (enum_tb_for fl fo ins tt fi u len ml (ss_program st)))
               (snd (enum_tb_for fl fo ins tt fi u len ml (ss_program st))) st"
proof (induction test fl fo ins tt fi u st and test fl fo ins tt fi u len ml st
        rule: tb_search_tb_for.induct)
  case (1 test funcLengths funcOrder instructions targetTotal funcIdx usedTotal st)
  show ?case
  proof (cases "funcIdx \<ge> length funcOrder")
    case True
    show ?thesis
    proof (cases "usedTotal = targetTotal")
      case eq: True
      obtain r st' where t: "test st = (r, st')" by (cases "test st")
      have "ss_program st' = ss_program st" using 1(2) [rule_format, of st] t by simp
      then have "st'\<lparr>ss_program := ss_program st\<rparr> = st'" by simp
      then show ?thesis
        using True eq t
        by (simp add: tb_search.simps enum_tb_search.simps split: option.splits)
    next
      case False
      then show ?thesis using True by (simp add: tb_search.simps enum_tb_search.simps)
    qed
  next
    case False
    then show ?thesis
      using 1(1) [OF False refl refl 1(2)]
      by (simp add: tb_search.simps enum_tb_search.simps Let_def)
  qed
next
  case (2 test funcLengths funcOrder instructions targetTotal funcIdx usedTotal len maxLen st)
  show ?case
  proof (cases "len \<le> maxLen")
    case False
    then show ?thesis by (simp add: tb_for.simps enum_tb_for.simps)
  next
    case True
    let ?k = "tb_search test funcLengths funcOrder instructions targetTotal (funcIdx + 1) (usedTotal + len)"
    let ?kE = "enum_tb_search funcLengths funcOrder instructions targetTotal (funcIdx + 1) (usedTotal + len)"
    have k: "refines test ?k ?kE"
      unfolding refines_def using 2(1) [OF True 2(3)] by simp
    have frame: "\<And>s. ss_program (snd (test s)) = ss_program s" using 2(3) by simp
    obtain qs b1 where e1: "enum_fillFunction ?kE (funcOrder ! funcIdx) len instructions (ss_program st) = (qs, b1)"
      by (cases "enum_fillFunction ?kE (funcOrder ! funcIdx) len instructions (ss_program st)")
    obtain qs' b2 where e2: "enum_tb_for funcLengths funcOrder instructions targetTotal funcIdx usedTotal
        (len + 1) maxLen b1 = (qs', b2)"
      by (cases "enum_tb_for funcLengths funcOrder instructions targetTotal funcIdx usedTotal (len + 1) maxLen b1")
    have f1: "fillFunction ?k (funcOrder ! funcIdx) len instructions st = run_tests test qs b1 st"
      using fillFunction_refines [OF frame k, of "funcOrder ! funcIdx" len instructions st] e1 by simp
    show ?thesis
    proof (cases "run_tests test qs b1 st")
      case (Pair r st1)
      show ?thesis
      proof (cases r)
        case (Some x)
        then show ?thesis
          using True f1 Pair e1 e2
          by (simp add: tb_for.simps [of _ _ _ _ _ _ _ len] enum_tb_for.simps [of _ _ _ _ _ _ len]
              run_tests_append [where mid = b1])
      next
        case None
        have p1: "ss_program st1 = b1"
          using run_tests_None_program [OF _ frame] Pair None by simp
        have fs: "(None, st1) = fillFunction ?k (funcOrder ! funcIdx) len instructions st"
          using f1 Pair None by simp
        have "tb_for test funcLengths funcOrder instructions targetTotal funcIdx usedTotal (len + 1) maxLen st1
            = run_tests test qs' b2 st1"
          using 2(2) [OF True fs refl 2(3)] e2 p1 by simp
        then show ?thesis
          using True f1 Pair None e1 e2
          by (simp add: tb_for.simps [of _ _ _ _ _ _ _ len] enum_tb_for.simps [of _ _ _ _ _ _ len]
              run_tests_append [where mid = b1])
      qed
    qed
  qed
qed

lemma all_null_filled: "all_null xs \<longleftrightarrow> filled xs 0"
  by (auto simp add: all_null_def filled_def in_set_conv_nth)
     (metis nth_mem)

lemma filled_slot_count: "filled xs n \<Longrightarrow> slot_count xs = n"
proof -
  assume f: "filled xs n"
  have "filter (\<lambda>e. e \<noteq> None) (take n xs) = take n xs"
    using f by (auto simp add: filled_def filter_id_conv in_set_conv_nth)
  moreover have "filter (\<lambda>e. e \<noteq> None) (drop n xs) = []"
    using f by (auto simp add: filled_def filter_empty_conv in_set_conv_nth)
  moreover have "xs = take n xs @ drop n xs" by simp
  ultimately have "filter (\<lambda>e. e \<noteq> None) xs = take n xs"
    by (metis append_Nil2 filter_append)
  then show ?thesis using f by (simp add: slot_count_def filled_def)
qed

lemma filled_assign_Some: "filled xs n \<Longrightarrow> filled (assign xs n (Some v)) (Suc n)"
  by (auto simp add: filled_def assign_def nth_list_update nth_append less_Suc_eq)

lemma filled_assign_None: "filled xs (Suc n) \<Longrightarrow> filled (assign xs n None) n"
  by (auto simp add: filled_def assign_def nth_list_update less_Suc_eq_le)

lemma length_put_slot [simp]: "length (put_slot f pos v b) = length b"
  by (simp add: put_slot_def)

lemma put_slot_same: "f < length b \<Longrightarrow> put_slot f pos v b ! f = assign (b ! f) pos v"
  by (simp add: put_slot_def)

lemma put_slot_other: "g \<noteq> f \<Longrightarrow> put_slot f pos v b ! g = b ! g"
  by (simp add: put_slot_def)

lemma fill_pre_put_Some:
  assumes "f \<notin> U" and "fill_pre U f pos b"
  shows "fill_pre U f (pos + 1) (put_slot f pos (Some v) b)"
proof -
  have "put_slot f pos (Some v) b ! g = b ! g" if "g \<in> U" for g
    using that assms(1) by (intro put_slot_other) auto
  then show ?thesis
    using assms by (simp add: fill_pre_def put_slot_same filled_assign_Some)
qed

lemma fill_pre_put_None:
  assumes "f \<notin> U" and "length b2 = length b" and "f < length b" and "filled (b2 ! f) (Suc pos)"
    and "\<forall>g \<in> U. g < length b \<and> all_null (b2 ! g)"
  shows "fill_pre U f pos (put_slot f pos None b2)"
proof -
  have "put_slot f pos None b2 ! g = b2 ! g" if "g \<in> U" for g
    using that assms(1) by (intro put_slot_other) auto
  then show ?thesis
    using assms by (simp add: fill_pre_def put_slot_same filled_assign_None)
qed

lemma enum_fill_spec:
  shows "f \<notin> U \<Longrightarrow> enum_spec U m kE \<Longrightarrow> pos \<le> L \<Longrightarrow> fill_pre U f pos b
           \<Longrightarrow> fill_post U m f L pos b (enum_fill_search kE f L allI pos c b)"
    and "f \<notin> U \<Longrightarrow> enum_spec U m kE \<Longrightarrow> pos < L \<Longrightarrow> fill_pre U f pos b
           \<Longrightarrow> fill_post U m f L pos b (enum_fill_for kE f L allI pos c l b)"
proof (induction kE f L allI pos c b and kE f L allI pos c l b rule: enum_fill_search_enum_fill_for.induct)
  case (1 onComplete funcIdx targetLen allInstructions pos c b)
  show ?case
  proof (cases "pos \<ge> targetLen")
    case True
    then have eq: "pos = targetLen" using 1(4) by simp
    obtain qs b' where r: "onComplete b = (qs, b')" by (cases "onComplete b")
    have pre: "\<forall>g \<in> U. g < length b \<and> all_null (b ! g)" using 1(5) by (simp add: fill_pre_def)
    have post: "length b' = length b \<and> (\<forall>g. g \<notin> U \<longrightarrow> b' ! g = b ! g) \<and> (\<forall>g \<in> U. all_null (b' ! g))
           \<and> (\<forall>q \<in> set qs. length q = length b \<and> (\<forall>g. g \<notin> U \<longrightarrow> q ! g = b ! g)
                  \<and> (\<Sum>g \<in> U. slot_count (q ! g)) = m)"
      using 1(3) pre r unfolding enum_spec_def by fastforce
    have fb: "filled (b ! funcIdx) targetLen" using 1(5) eq by (simp add: fill_pre_def)
    have "fill_post U m funcIdx targetLen pos b (qs, b')"
      unfolding fill_post_def using post fb eq 1(2) by auto
    then show ?thesis using True r by (simp add: enum_fill_search.simps)
  next
    case False
    then show ?thesis
      using 1(1) [OF False 1(2,3) _ 1(5)] by (simp add: enum_fill_search.simps)
  qed
next
  case (2 onComplete funcIdx targetLen allInstructions pos c b)
  then show ?case by (simp add: fill_post_def fill_pre_def)
next
  case (3 onComplete funcIdx targetLen allInstructions pos c instr others b)
  let ?nc = "propagateConstraints c instr pos targetLen"
  let ?b1 = "put_slot funcIdx pos (Some instr) b"
  obtain qs b2 where e1: "enum_fill_search onComplete funcIdx targetLen allInstructions (pos + 1) ?nc ?b1 = (qs, b2)"
    by (cases "enum_fill_search onComplete funcIdx targetLen allInstructions (pos + 1) ?nc ?b1")
  let ?b2 = "put_slot funcIdx pos None b2"
  obtain qs' b3 where e2: "enum_fill_for onComplete funcIdx targetLen allInstructions pos c others ?b2 = (qs', b3)"
    by (cases "enum_fill_for onComplete funcIdx targetLen allInstructions pos c others ?b2")
  have fl: "funcIdx < length b" using 3(6) by (simp add: fill_pre_def)
  have p1: "fill_post U m funcIdx targetLen (pos + 1) ?b1 (qs, b2)"
    using 3(1) [OF 3(3,4) _ fill_pre_put_Some [OF 3(3,6)]] 3(5) e1 by simp
  have l2: "length b2 = length b" using p1 by (simp add: fill_post_def)
  have f2: "filled (b2 ! funcIdx) (Suc pos)" using p1 by (simp add: fill_post_def)
  have u2: "\<forall>g \<in> U. g < length b \<and> all_null (b2 ! g)"
    using p1 3(6) by (simp add: fill_post_def fill_pre_def)
  have o2: "\<forall>g. g \<notin> insert funcIdx U \<longrightarrow> b2 ! g = b ! g"
    using p1 by (simp add: fill_post_def put_slot_other)
  have pre2: "fill_pre U funcIdx pos ?b2"
    by (rule fill_pre_put_None [OF 3(3) l2 fl f2 u2])
  have p2: "fill_post U m funcIdx targetLen pos ?b2 (qs', b3)"
    using 3(2) [OF e1 [symmetric] 3(3,4,5) pre2] e2 by simp
  have q1: "\<forall>q \<in> set qs. length q = length b \<and> (\<forall>g. g \<notin> insert funcIdx U \<longrightarrow> q ! g = b ! g)
               \<and> filled (q ! funcIdx) targetLen \<and> (\<Sum>g \<in> U. slot_count (q ! g)) = m"
    using p1 by (simp add: fill_post_def put_slot_other)
  have q2: "\<forall>q \<in> set qs'. length q = length b \<and> (\<forall>g. g \<notin> insert funcIdx U \<longrightarrow> q ! g = b ! g)
               \<and> filled (q ! funcIdx) targetLen \<and> (\<Sum>g \<in> U. slot_count (q ! g)) = m"
    using p2 l2 o2 by (simp add: fill_post_def put_slot_other)
  have r3: "length b3 = length b \<and> (\<forall>g. g \<notin> insert funcIdx U \<longrightarrow> b3 ! g = b ! g)
       \<and> filled (b3 ! funcIdx) pos \<and> (\<forall>g \<in> U. all_null (b3 ! g))"
    using p2 l2 o2 by (simp add: fill_post_def put_slot_other)
  have "fill_post U m funcIdx targetLen pos b (qs @ qs', b3)"
    unfolding fill_post_def using q1 q2 r3 by auto
  then show ?case using e1 e2 by simp
qed

lemma enum_fillFunction_spec:
  assumes fU: "f \<notin> U" and fin: "finite U" and k: "enum_spec U m kE"
  shows "enum_spec (insert f U) (L + m) (enum_fillFunction kE f L allI)"
  unfolding enum_spec_def
proof (intro allI impI)
  fix b
  assume pre: "\<forall>g \<in> insert f U. g < length b \<and> all_null (b ! g)"
  then have fp: "fill_pre U f 0 b" by (simp add: fill_pre_def all_null_filled)
  have sum_ins: "(\<Sum>g \<in> insert f U. slot_count (q ! g)) = slot_count (q ! f) + (\<Sum>g \<in> U. slot_count (q ! g))"
    for q :: buffer
    using fU fin by simp
  show "case enum_fillFunction kE f L allI b of (qs, b') \<Rightarrow>
           length b' = length b \<and> (\<forall>g. g \<notin> insert f U \<longrightarrow> b' ! g = b ! g)
           \<and> (\<forall>g \<in> insert f U. all_null (b' ! g))
           \<and> (\<forall>q \<in> set qs. length q = length b \<and> (\<forall>g. g \<notin> insert f U \<longrightarrow> q ! g = b ! g)
                  \<and> (\<Sum>g \<in> insert f U. slot_count (q ! g)) = L + m)"
  proof (cases "L = 0")
    case True
    obtain qs b' where r: "kE b = (qs, b')" by (cases "kE b")
    have post: "length b' = length b \<and> (\<forall>g. g \<notin> U \<longrightarrow> b' ! g = b ! g) \<and> (\<forall>g \<in> U. all_null (b' ! g))
           \<and> (\<forall>q \<in> set qs. length q = length b \<and> (\<forall>g. g \<notin> U \<longrightarrow> q ! g = b ! g)
                  \<and> (\<Sum>g \<in> U. slot_count (q ! g)) = m)"
      using k pre r unfolding enum_spec_def by fastforce
    have z: "slot_count (b ! f) = 0"
      using pre filled_slot_count [of "b ! f" 0] by (simp add: all_null_filled)
    show ?thesis
      using True r post fU pre z by (auto simp add: enum_fillFunction_def sum_ins)
  next
    case False
    obtain qs b' where r: "enum_fill_search kE f L allI 0 initial_constraints b = (qs, b')"
      by (cases "enum_fill_search kE f L allI 0 initial_constraints b")
    have p: "fill_post U m f L 0 b (qs, b')"
      using enum_fill_spec(1) [OF fU k _ fp, of L allI initial_constraints] r by simp
    have c: "\<forall>q \<in> set qs. slot_count (q ! f) = L"
      using p by (auto simp add: fill_post_def filled_slot_count)
    show ?thesis
      using False r p c
      by (auto simp add: enum_fillFunction_def sum_ins fill_post_def all_null_filled)
  qed
qed

lemma enum_spec_iff: "enum_spec U m kE \<longleftrightarrow> (\<forall>b. spec_at U m b (kE b))"
  by (simp add: enum_spec_def spec_at_def)

lemma spec_at_append:
  assumes s1: "spec_at U m b (qs, b1)" and s2: "spec_at U m b1 (qs', b2)"
  shows "spec_at U m b (qs @ qs', b2)"
  unfolding spec_at_def
proof (intro impI)
  assume pre: "\<forall>g \<in> U. g < length b \<and> all_null (b ! g)"
  have p1: "length b1 = length b" "\<forall>g. g \<notin> U \<longrightarrow> b1 ! g = b ! g" "\<forall>g \<in> U. all_null (b1 ! g)"
    "\<forall>q \<in> set qs. length q = length b \<and> (\<forall>g. g \<notin> U \<longrightarrow> q ! g = b ! g)
                  \<and> (\<Sum>g \<in> U. slot_count (q ! g)) = m"
    using s1 pre unfolding spec_at_def by simp_all
  have pre1: "\<forall>g \<in> U. g < length b1 \<and> all_null (b1 ! g)"
    using p1(1,3) pre by simp
  have p2: "length b2 = length b1" "\<forall>g. g \<notin> U \<longrightarrow> b2 ! g = b1 ! g" "\<forall>g \<in> U. all_null (b2 ! g)"
    "\<forall>q \<in> set qs'. length q = length b1 \<and> (\<forall>g. g \<notin> U \<longrightarrow> q ! g = b1 ! g)
                  \<and> (\<Sum>g \<in> U. slot_count (q ! g)) = m"
    using s2 pre1 unfolding spec_at_def by simp_all
  have q2: "\<forall>q \<in> set qs'. length q = length b \<and> (\<forall>g. g \<notin> U \<longrightarrow> q ! g = b ! g)
                  \<and> (\<Sum>g \<in> U. slot_count (q ! g)) = m"
    using p2(4) p1(1,2) by simp
  have b2: "length b2 = length b" "\<forall>g. g \<notin> U \<longrightarrow> b2 ! g = b ! g"
    using p2(1,2) p1(1,2) by simp_all
  show "case (qs @ qs', b2) of (qs, b') \<Rightarrow>
           length b' = length b \<and> (\<forall>g. g \<notin> U \<longrightarrow> b' ! g = b ! g) \<and> (\<forall>g \<in> U. all_null (b' ! g))
           \<and> (\<forall>q \<in> set qs. length q = length b \<and> (\<forall>g. g \<notin> U \<longrightarrow> q ! g = b ! g)
                  \<and> (\<Sum>g \<in> U. slot_count (q ! g)) = m)"
    using b2 p2(3) p1(4) q2 by (simp add: ball_Un)
qed

lemma enum_tb_spec:
  shows "distinct fo \<Longrightarrow> u \<le> tt
           \<Longrightarrow> spec_at (set (drop fi fo)) (tt - u) b (enum_tb_search fl fo ins tt fi u b)"
    and "distinct fo \<Longrightarrow> fi < length fo \<Longrightarrow> u + ml \<le> tt
           \<Longrightarrow> spec_at (set (drop fi fo)) (tt - u) b (enum_tb_for fl fo ins tt fi u len ml b)"
proof (induction fl fo ins tt fi u b and fl fo ins tt fi u len ml b rule: enum_tb_search_enum_tb_for.induct)
  case (1 funcLengths funcOrder instructions targetTotal funcIdx usedTotal b)
  show ?case
  proof (cases "funcIdx \<ge> length funcOrder")
    case True
    then show ?thesis by (simp add: enum_tb_search.simps spec_at_def)
  next
    case False
    have "usedTotal + min (funcLengths ! (funcOrder ! funcIdx)) (targetTotal - usedTotal) \<le> targetTotal"
      using 1(3) by simp
    then show ?thesis
      using 1(1) [OF False refl refl 1(2)] False by (simp add: enum_tb_search.simps Let_def)
  qed
next
  case (2 funcLengths funcOrder instructions targetTotal funcIdx usedTotal len maxLen b)
  let ?U = "set (drop funcIdx funcOrder)"
  let ?U' = "set (drop (funcIdx + 1) funcOrder)"
  let ?f = "funcOrder ! funcIdx"
  show ?case
  proof (cases "len \<le> maxLen")
    case False
    then show ?thesis by (simp add: enum_tb_for.simps spec_at_def)
  next
    case True
    let ?kE = "enum_tb_search funcLengths funcOrder instructions targetTotal (funcIdx + 1) (usedTotal + len)"
    have ul: "usedTotal + len \<le> targetTotal" using True 2(5) by simp
    have k: "enum_spec ?U' (targetTotal - (usedTotal + len)) ?kE"
      unfolding enum_spec_iff using 2(1) [OF True 2(3) ul] by simp
    have dr: "drop funcIdx funcOrder = ?f # drop (funcIdx + 1) funcOrder"
      using 2(4) by (simp add: Cons_nth_drop_Suc)
    have "distinct (?f # drop (funcIdx + 1) funcOrder)"
      using 2(3) dr distinct_drop [of funcOrder funcIdx] by simp
    then have fU: "?f \<notin> ?U'" by simp
    have "set (drop funcIdx funcOrder) = set (?f # drop (funcIdx + 1) funcOrder)"
      using dr by simp
    then have U: "?U = insert ?f ?U'" by simp
    have m: "len + (targetTotal - (usedTotal + len)) = targetTotal - usedTotal" using ul by simp
    have ff: "enum_spec ?U (targetTotal - usedTotal) (enum_fillFunction ?kE ?f len instructions)"
      using enum_fillFunction_spec [OF fU _ k, of len instructions] U m by simp
    obtain qs b1 where e1: "enum_fillFunction ?kE ?f len instructions b = (qs, b1)"
      by (cases "enum_fillFunction ?kE ?f len instructions b")
    obtain qs' b2 where e2: "enum_tb_for funcLengths funcOrder instructions targetTotal funcIdx usedTotal
        (len + 1) maxLen b1 = (qs', b2)"
      by (cases "enum_tb_for funcLengths funcOrder instructions targetTotal funcIdx usedTotal (len + 1) maxLen b1")
    have s1: "spec_at ?U (targetTotal - usedTotal) b (qs, b1)"
      using ff [unfolded enum_spec_iff, rule_format, of b] e1 by simp
    have s2: "spec_at ?U (targetTotal - usedTotal) b1 (qs', b2)"
      using 2(2) [OF True e1 [symmetric] 2(3,4,5)] e2 by simp
    have "spec_at ?U (targetTotal - usedTotal) b (qs @ qs', b2)"
      using s1 s2 by (rule spec_at_append)
    then show ?thesis
      using True e1 e2 by (simp add: enum_tb_for.simps [of _ _ _ _ _ _ len])
  qed
qed

lemma funcOrder_of_perm:
  "distinct (funcOrder_of fl) \<and> set (funcOrder_of fl) = {0 ..< length fl}"
proof -
  let ?z = "zip [0 ..< length fl] fl"
  let ?s = "sort_key (\<lambda>(idx, len). - int len) ?z"
  have m: "map fst ?z = [0 ..< length fl]" by simp
  have dz: "distinct (map fst ?z)" by (simp only: m distinct_upt)
  then have "distinct ?z \<and> inj_on fst (set ?z)" by (simp only: distinct_map)
  then have "distinct ?s \<and> inj_on fst (set ?s)" by simp
  then have d: "distinct (map fst ?s)" by (simp only: distinct_map)
  have 1: "set (map fst ?s) = fst ` set ?z" by simp
  have 2: "fst ` set ?z = set (map fst ?z)" by (simp only: set_map)
  have 3: "set (map fst ?z) = {0 ..< length fl}" by (simp only: m set_upt)
  show ?thesis using d 1 2 3 by (simp add: funcOrder_of_def)
qed

lemma candidates_count:
  assumes "q \<in> set (candidates fl ins d)"
  shows "instr_count q = d \<and> length q = length fl"
proof -
  let ?fo = "funcOrder_of fl"
  let ?b0 = "map (\<lambda>_. []) fl :: buffer"
  obtain qs b' where e: "enum_tb_search fl ?fo ins d 0 0 ?b0 = (qs, b')"
    by (cases "enum_tb_search fl ?fo ins d 0 0 ?b0")
  have s: "spec_at (set (drop 0 ?fo)) (d - 0) ?b0 (enum_tb_search fl ?fo ins d 0 0 ?b0)"
    using funcOrder_of_perm [of fl] by (intro enum_tb_spec(1)) simp_all
  have pre: "\<forall>g \<in> {0 ..< length fl}. g < length ?b0 \<and> all_null (?b0 ! g)"
    by (simp add: all_null_def)
  have q: "q \<in> set qs" using assms e by (simp add: candidates_def)
  have "length q = length ?b0 \<and> (\<Sum>g \<in> {0 ..< length fl}. slot_count (q ! g)) = d"
    using s pre q e funcOrder_of_perm [of fl] unfolding spec_at_def by simp
  then have l: "length q = length fl" and c: "(\<Sum>g \<in> {0 ..< length q}. slot_count (q ! g)) = d"
    by simp_all
  have "instr_count q = (\<Sum>g \<in> {0 ..< length q}. slot_count (q ! g))"
    by (simp add: instr_count_def sum_list_sum_nth)
  then show ?thesis using l c by simp
qed

lemma tryBuildProgram_candidates:
  assumes frame: "\<forall>s. ss_program (snd (test s)) = ss_program s"
  shows "\<exists>final. tryBuildProgram test fl (funcOrder_of fl) ins d tested reads
           = run_tests test (candidates fl ins d) final
               \<lparr>ss_program = map (\<lambda>_. []) fl, ss_tested = tested, ss_reads = reads\<rparr>"
  using tb_refines_aux(1) [OF frame, of fl "funcOrder_of fl" ins d 0 0
      "\<lparr>ss_program = map (\<lambda>_. []) fl, ss_tested = tested, ss_reads = reads\<rparr>"]
  by (auto simp add: tryBuildProgram_def candidates_def)

lemma test_program_frame: "\<forall>s. ss_program (snd (test_program clock T exec s)) = ss_program s"
  by (simp add: test_program_def Let_def split: run_result.splits)

lemma test_program_None:
  assumes "test_program clock T exec st = (None, st')"
  shows "st' = st\<lparr>ss_tested := ss_tested st + 1, ss_reads := ss_reads st + 1\<rparr>
       \<and> \<not> (clock (ss_reads st) < T \<and> solved_by exec (ss_program st))"
  using assms by (auto simp add: test_program_def Let_def solved_by_def split: run_result.splits if_splits)

lemma test_program_Some:
  assumes "test_program clock T exec st = (Some (p, n), st')"
  shows "st' = st\<lparr>ss_tested := ss_tested st + 1, ss_reads := ss_reads st + 1\<rparr>
       \<and> clock (ss_reads st) < T \<and> p = ss_program st \<and> exec p = Solved n"
  using assms by (auto simp add: test_program_def Let_def split: run_result.splits if_splits)

lemma run_tests_test_program:
  "run_tests (test_program clock T exec) qs final st = (r, st') \<Longrightarrow>
     (case r of
        None \<Rightarrow> ss_tested st' = ss_tested st + length qs \<and> ss_reads st' = ss_reads st + length qs
                \<and> (\<forall>j < length qs. \<not> (clock (ss_reads st + j) < T \<and> solved_by exec (qs ! j)))
      | Some (p, n) \<Rightarrow>
          (\<exists>i < length qs. p = qs ! i \<and> exec p = Solved n \<and> clock (ss_reads st + i) < T
             \<and> ss_tested st' = ss_tested st + i + 1
             \<and> (\<forall>j < i. \<not> (clock (ss_reads st + j) < T \<and> solved_by exec (qs ! j)))))"
proof (induction qs arbitrary: st)
  case Nil
  then show ?case by auto
next
  case (Cons q qs)
  let ?st0 = "st\<lparr>ss_program := q\<rparr>"
  obtain r1 st1 where t: "test_program clock T exec ?st0 = (r1, st1)"
    by (cases "test_program clock T exec ?st0")
  show ?case
  proof (cases r1)
    case None
    have a: "st1 = ?st0\<lparr>ss_tested := ss_tested ?st0 + 1, ss_reads := ss_reads ?st0 + 1\<rparr>"
      and b: "\<not> (clock (ss_reads st) < T \<and> solved_by exec q)"
      using test_program_None [of clock T exec ?st0 st1] t None by simp_all
    have rt: "run_tests (test_program clock T exec) qs final st1 = (r, st')"
      using Cons.prems t None by simp
    have t1: "ss_tested st1 = ss_tested st + 1" "ss_reads st1 = ss_reads st + 1" using a by simp_all
    show ?thesis
    proof (cases r)
      case rn: None
      have ih: "ss_tested st' = ss_tested st1 + length qs \<and> ss_reads st' = ss_reads st1 + length qs
                \<and> (\<forall>j < length qs. \<not> (clock (ss_reads st1 + j) < T \<and> solved_by exec (qs ! j)))"
        using Cons.IH [OF rt] rn by simp
      have "\<not> (clock (ss_reads st + j) < T \<and> solved_by exec ((q # qs) ! j))" if "j < length (q # qs)" for j
      proof (cases j)
        case 0
        then show ?thesis using b by simp
      next
        case (Suc j')
        then show ?thesis using ih that t1 by simp
      qed
      then show ?thesis using rn ih t1 by simp
    next
      case (Some pn)
      obtain p n where pn: "pn = (p, n)" by (cases pn)
      obtain i where ih: "i < length qs" "p = qs ! i" "exec p = Solved n" "clock (ss_reads st1 + i) < T"
        "ss_tested st' = ss_tested st1 + i + 1"
        "\<forall>j < i. \<not> (clock (ss_reads st1 + j) < T \<and> solved_by exec (qs ! j))"
        using Cons.IH [OF rt] Some pn by auto
      have e: "\<not> (clock (ss_reads st + j) < T \<and> solved_by exec ((q # qs) ! j))" if "j < Suc i" for j
      proof (cases j)
        case 0
        then show ?thesis using b by simp
      next
        case (Suc j')
        then show ?thesis using ih(6) that t1 by simp
      qed
      have "Suc i < length (q # qs) \<and> p = (q # qs) ! Suc i \<and> exec p = Solved n
          \<and> clock (ss_reads st + Suc i) < T \<and> ss_tested st' = ss_tested st + Suc i + 1
          \<and> (\<forall>j < Suc i. \<not> (clock (ss_reads st + j) < T \<and> solved_by exec ((q # qs) ! j)))"
        using ih t1 e by simp
      then show ?thesis using Some pn by (auto intro!: exI [of _ "Suc i"])
    qed
  next
    case (Some pn)
    obtain p n where pn: "pn = (p, n)" by (cases pn)
    have a: "clock (ss_reads st) < T \<and> p = q \<and> exec p = Solved n"
      and b: "st1 = ?st0\<lparr>ss_tested := ss_tested ?st0 + 1, ss_reads := ss_reads ?st0 + 1\<rparr>"
      using test_program_Some [of clock T exec ?st0 p n st1] t Some pn by auto
    have "r = Some (p, n) \<and> st' = st1" using Cons.prems t Some pn by simp
    then show ?thesis using a b by (auto intro!: exI [of _ 0])
  qed
qed

lemma solve_from_solved:
  "solve_from env fl ins d0 tested reads = SolveSolved p n t \<Longrightarrow>
     \<exists>d i r. d0 \<le> d \<and> d \<le> sum_list fl \<and> i < length (candidates fl ins d)
        \<and> p = candidates fl ins d ! i \<and> env_exec env p = Solved n
        \<and> reads \<le> r \<and> env_clock env r < env_timeoutMs env
        \<and> (\<forall>j < i. \<exists>r' \<le> r. \<not> (env_clock env r' < env_timeoutMs env
                                  \<and> solved_by (env_exec env) (candidates fl ins d ! j)))
        \<and> (\<forall>d'. d0 \<le> d' \<and> d' < d \<longrightarrow>
              (\<forall>q \<in> set (candidates fl ins d'). \<exists>r' \<le> r.
                  \<not> (env_clock env r' < env_timeoutMs env \<and> solved_by (env_exec env) q)))"
proof (induction env fl ins d0 tested reads rule: solve_from.induct)
  case (1 env functionLengths instructions totalInstr tested reads)
  let ?C = "env_clock env" and ?T = "env_timeoutMs env" and ?X = "env_exec env"
  let ?test = "test_program ?C ?T ?X"
  let ?cand = "candidates functionLengths instructions"
  let ?st0 = "\<lparr>ss_program = map (\<lambda>_. []) functionLengths, ss_tested = tested, ss_reads = reads + 1\<rparr>"
  have c1: "totalInstr \<le> sum_list functionLengths"
    using 1(2) by (subst (asm) solve_from.simps) (simp split: if_splits)
  have c2: "env_running env totalInstr"
    using 1(2) c1 by (subst (asm) solve_from.simps) (simp split: if_splits)
  have c3: "\<not> ?C reads > ?T"
    using 1(2) c1 c2 by (subst (asm) solve_from.simps) (simp split: if_splits)
  obtain r st where tb: "tryBuildProgram ?test functionLengths (funcOrder_of functionLengths)
      instructions totalInstr tested (reads + 1) = (r, st)"
    by (cases "tryBuildProgram ?test functionLengths (funcOrder_of functionLengths)
      instructions totalInstr tested (reads + 1)")
  obtain final where rt: "run_tests ?test (?cand totalInstr) final ?st0 = (r, st)"
    using tryBuildProgram_candidates [OF test_program_frame, of ?C ?T ?X functionLengths instructions
        totalInstr tested "reads + 1"] tb by auto
  note ch = run_tests_test_program [OF rt]
  show ?case
  proof (cases r)
    case (Some pn)
    obtain p' n' where pn: "pn = (p', n')" by (cases pn)
    have res: "p = p' \<and> n = n'"
      using 1(2) c1 c2 c3 tb Some pn by (subst (asm) solve_from.simps) simp
    obtain i where i: "i < length (?cand totalInstr)" "p' = ?cand totalInstr ! i" "?X p' = Solved n'"
      "?C (reads + 1 + i) < ?T"
      "\<forall>j < i. \<not> (?C (reads + 1 + j) < ?T \<and> solved_by ?X (?cand totalInstr ! j))"
      using ch Some pn by auto
    have e: "\<forall>j < i. \<exists>r' \<le> reads + 1 + i. \<not> (?C r' < ?T \<and> solved_by ?X (?cand totalInstr ! j))"
    proof (intro allI impI)
      fix j assume "j < i"
      then show "\<exists>r' \<le> reads + 1 + i. \<not> (?C r' < ?T \<and> solved_by ?X (?cand totalInstr ! j))"
        using i(5) by (intro exI [of _ "reads + 1 + j"]) simp
    qed
    have vac: "\<forall>d'. totalInstr \<le> d' \<and> d' < totalInstr \<longrightarrow>
              (\<forall>q \<in> set (?cand d'). \<exists>r' \<le> reads + 1 + i. \<not> (?C r' < ?T \<and> solved_by ?X q))"
    proof (intro allI impI)
      fix d' :: nat
      assume "totalInstr \<le> d' \<and> d' < totalInstr"
      then have False by linarith
      then show "\<forall>q \<in> set (?cand d'). \<exists>r' \<le> reads + 1 + i. \<not> (?C r' < ?T \<and> solved_by ?X q)" ..
    qed
    have le: "totalInstr \<le> totalInstr" "reads \<le> reads + 1 + i" by simp_all
    have "totalInstr \<le> totalInstr \<and> totalInstr \<le> sum_list functionLengths
        \<and> i < length (?cand totalInstr) \<and> p = ?cand totalInstr ! i \<and> ?X p = Solved n
        \<and> reads \<le> reads + 1 + i \<and> ?C (reads + 1 + i) < ?T
        \<and> (\<forall>j < i. \<exists>r' \<le> reads + 1 + i. \<not> (?C r' < ?T \<and> solved_by ?X (?cand totalInstr ! j)))
        \<and> (\<forall>d'. totalInstr \<le> d' \<and> d' < totalInstr \<longrightarrow>
              (\<forall>q \<in> set (?cand d'). \<exists>r' \<le> reads + 1 + i. \<not> (?C r' < ?T \<and> solved_by ?X q)))"
      using c1 i(1,2,3,4) e res vac le by blast
    then show ?thesis by blast
  next
    case None
    have n: "ss_tested st = tested + length (?cand totalInstr)"
      "ss_reads st = reads + 1 + length (?cand totalInstr)"
      "\<forall>j < length (?cand totalInstr). \<not> (?C (reads + 1 + j) < ?T \<and> solved_by ?X (?cand totalInstr ! j))"
      using ch None by simp_all
    have c4: "\<not> ?C (ss_reads st) > ?T"
      using 1(2) c1 c2 c3 tb None by (subst (asm) solve_from.simps) (simp split: if_splits)
    have rec: "solve_from env functionLengths instructions (totalInstr + 1) (ss_tested st) (ss_reads st + 1)
        = SolveSolved p n t"
      using 1(2) c1 c2 c3 c4 tb None by (subst (asm) solve_from.simps) simp
    have c2': "\<not> \<not> env_running env totalInstr" using c2 by simp
    obtain d i r' where ih: "totalInstr + 1 \<le> d" "d \<le> sum_list functionLengths"
      "i < length (?cand d)" "p = ?cand d ! i" "?X p = Solved n" "ss_reads st + 1 \<le> r'" "?C r' < ?T"
      "\<forall>j < i. \<exists>r'' \<le> r'. \<not> (?C r'' < ?T \<and> solved_by ?X (?cand d ! j))"
      "\<forall>d'. totalInstr + 1 \<le> d' \<and> d' < d \<longrightarrow>
              (\<forall>q \<in> set (?cand d'). \<exists>r'' \<le> r'. \<not> (?C r'' < ?T \<and> solved_by ?X q))"
      using 1(1) [OF c1 c2' c3 tb [symmetric] None c4 rec] by blast
    have here: "\<forall>q \<in> set (?cand totalInstr). \<exists>r'' \<le> r'. \<not> (?C r'' < ?T \<and> solved_by ?X q)"
    proof
      fix q assume "q \<in> set (?cand totalInstr)"
      then obtain j where j: "j < length (?cand totalInstr)" "q = ?cand totalInstr ! j"
        by (auto simp add: in_set_conv_nth)
      have "reads + 1 + j \<le> r'" using j(1) n(2) ih(6) by simp
      then show "\<exists>r'' \<le> r'. \<not> (?C r'' < ?T \<and> solved_by ?X q)"
        using n(3) j by (intro exI [of _ "reads + 1 + j"]) simp
    qed
    have below: "\<forall>d'. totalInstr \<le> d' \<and> d' < d \<longrightarrow>
              (\<forall>q \<in> set (?cand d'). \<exists>r'' \<le> r'. \<not> (?C r'' < ?T \<and> solved_by ?X q))"
    proof (intro allI impI)
      fix d' assume d': "totalInstr \<le> d' \<and> d' < d"
      show "\<forall>q \<in> set (?cand d'). \<exists>r'' \<le> r'. \<not> (?C r'' < ?T \<and> solved_by ?X q)"
      proof (cases "d' = totalInstr")
        case True
        then show ?thesis using here by simp
      next
        case False
        then have "totalInstr + 1 \<le> d' \<and> d' < d" using d' by simp
        then show ?thesis using ih(9) by blast
      qed
    qed
    have rr: "reads \<le> r'" using ih(6) n(2) by simp
    have dd: "totalInstr \<le> d" using ih(1) by simp
    have "totalInstr \<le> d \<and> d \<le> sum_list functionLengths
        \<and> i < length (?cand d) \<and> p = ?cand d ! i \<and> ?X p = Solved n
        \<and> reads \<le> r' \<and> ?C r' < ?T
        \<and> (\<forall>j < i. \<exists>r'' \<le> r'. \<not> (?C r'' < ?T \<and> solved_by ?X (?cand d ! j)))
        \<and> (\<forall>d'. totalInstr \<le> d' \<and> d' < d \<longrightarrow>
              (\<forall>q \<in> set (?cand d'). \<exists>r'' \<le> r'. \<not> (?C r'' < ?T \<and> solved_by ?X q)))"
      using dd ih(2,3,4,5,7,8) below rr by blast
    then show ?thesis by blast
  qed
qed

lemmas vm_ne_eval = body_ne_def exec_opcode_ne_def forward_def paint_def call_nonempty_def Let_def
  INST_defs dx_def dy_def cell_def set_cell_def

lemma one_forward_unsolved: "executeProgram_ne (corridor_level\<lparr>player_x := 6\<rparr>) [[Suc 0]] 10000 = Unsolved"
  by (simp add: executeProgram_ne_def result_of_def loop_ne.simps vm_ne_eval corridor_defs)

lemma two_forwards_solved: "executeProgram_ne (corridor_level\<lparr>player_x := 6\<rparr>) [[Suc 0, Suc 0]] 10000 = Solved 2"
  by (simp add: executeProgram_ne_def result_of_def loop_ne.simps vm_ne_eval corridor_defs)

lemmas engine_search_eval = solve_def solve_from.simps tryBuildProgram_def tb_search.simps tb_for.simps
  fillFunction_def fill_search.simps test_program_def set_slot_def assign_def
  getValidInstructions_def propagateConstraints_def initial_constraints_def
  buildInstructions_def funcOrder_of_def as_program_def

lemma solve_two_forwards: "solve (\<lambda>_. 0) 30000 (\<lambda>_. True) (corridor_level\<lparr>player_x := 6\<rparr>) [Name_FW] [2]
    = SolveSolved [[Some 1, Some 1]] 2 2"
  by (simp add: engine_search_eval one_forward_unsolved two_forwards_solved Let_def INST_defs)

lemma candidates_eval:
  "candidates [2] (buildInstructions [Name_FW]) 1 = [[[Some 1]]]"
  by (simp add: candidates_def enum_tb_search.simps enum_tb_for.simps enum_fillFunction_def
      enum_fill_search.simps put_slot_def assign_def getValidInstructions_def
      propagateConstraints_def initial_constraints_def buildInstructions_def funcOrder_of_def
      Let_def INST_defs)

text \<open>
  Claim C2, for the engine \<open>ConstraintSolver.solve\<close>. The engine deepens on the total
  number of instructions over all function slots: at depth \<open>d\<close> it runs through the
  arrays of \<open>candidates\<close> at \<open>d\<close>, each of which holds exactly \<open>d\<close> instructions,
  and it starts depth \<open>d + 1\<close> only when none of them was solved. So, if the time
  elapsed never decreases and the engine returns a solved program \<open>p\<close>, then \<open>p\<close> is
  the first candidate of some depth \<open>d\<close> between \<open>1\<close> and the sum of the function
  lengths whose run is reported solved, \<open>p\<close> holds \<open>d\<close> instructions, no candidate of
  a smaller depth is a solution, and no solution among the candidates of any depth holds
  fewer instructions than \<open>p\<close>.
\<close>

theorem constraint_solver_depth_minimal:
  assumes mono: "\<forall>i j. i \<le> j \<longrightarrow> clock i \<le> clock j"
    and res: "solve clock timeoutMs running lv names fl = SolveSolved p n t"
    and ins: "ins = buildInstructions names"
    and ex: "exec = (\<lambda>b. executeProgram_ne lv (as_program b) 10000)"
  shows "\<exists>d i. 1 \<le> d \<and> d \<le> sum_list fl \<and> i < length (candidates fl ins d)
           \<and> p = candidates fl ins d ! i \<and> instr_count p = d \<and> exec p = Solved n
           \<and> (\<forall>j < i. \<not> solved_by exec (candidates fl ins d ! j))
           \<and> (\<forall>d' q. 1 \<le> d' \<and> d' < d \<and> q \<in> set (candidates fl ins d') \<longrightarrow> \<not> solved_by exec q)
           \<and> (\<forall>d' q. q \<in> set (candidates fl ins d') \<longrightarrow> instr_count q = d')
           \<and> (\<forall>d' q. 1 \<le> d' \<and> q \<in> set (candidates fl ins d') \<and> solved_by exec q
                  \<longrightarrow> instr_count p \<le> instr_count q)"
proof -
  let ?env = "\<lparr>env_clock = clock, env_timeoutMs = timeoutMs, env_running = running, env_exec = exec\<rparr>"
  have "solve_from ?env fl ins 1 0 0 = SolveSolved p n t"
    using res by (simp add: solve_def ins ex)
  from solve_from_solved [OF this]
  obtain d i r where h: "1 \<le> d" "d \<le> sum_list fl" "i < length (candidates fl ins d)"
    "p = candidates fl ins d ! i" "exec p = Solved n" "clock r < timeoutMs"
    "\<forall>j < i. \<exists>r' \<le> r. \<not> (clock r' < timeoutMs \<and> solved_by exec (candidates fl ins d ! j))"
    "\<forall>d'. 1 \<le> d' \<and> d' < d \<longrightarrow>
        (\<forall>q \<in> set (candidates fl ins d'). \<exists>r' \<le> r. \<not> (clock r' < timeoutMs \<and> solved_by exec q))"
    by auto
  have alive: "clock r' < timeoutMs" if "r' \<le> r" for r'
    using mono that h(6) by (meson le_less_trans)
  have first: "\<forall>j < i. \<not> solved_by exec (candidates fl ins d ! j)"
    using h(7) alive by blast
  have below: "\<forall>d' q. 1 \<le> d' \<and> d' < d \<and> q \<in> set (candidates fl ins d') \<longrightarrow> \<not> solved_by exec q"
    using h(8) alive by blast
  have cnt: "\<forall>d' q. q \<in> set (candidates fl ins d') \<longrightarrow> instr_count q = d'"
    using candidates_count by blast
  have pin: "p \<in> set (candidates fl ins d)" using h(3,4) by simp
  have pc: "instr_count p = d" using cnt pin by blast
  have least: "\<forall>d' q. 1 \<le> d' \<and> q \<in> set (candidates fl ins d') \<and> solved_by exec q
                  \<longrightarrow> instr_count p \<le> instr_count q"
  proof (intro allI impI)
    fix d' q
    assume a: "1 \<le> d' \<and> q \<in> set (candidates fl ins d') \<and> solved_by exec q"
    then have "\<not> d' < d" using below by blast
    moreover have "instr_count q = d'" using a cnt by blast
    ultimately show "instr_count p \<le> instr_count q" using pc by simp
  qed
  show ?thesis
    using h(1,2,3,4,5) pc first below cnt least by blast
qed

theorem constraint_solver_depth_minimal_witness:
  "solve (\<lambda>_. 0) 30000 (\<lambda>_. True) (corridor_level\<lparr>player_x := 6\<rparr>) [Name_FW] [2]
     = SolveSolved [[Some 1, Some 1]] 2 2
   \<and> instr_count [[Some 1, Some 1]] = 2
   \<and> candidates [2] (buildInstructions [Name_FW]) 1 = [[[Some 1]]]
   \<and> \<not> solved_by (\<lambda>b. executeProgram_ne (corridor_level\<lparr>player_x := 6\<rparr>) (as_program b) 10000)
         [[Some 1]]"
proof -
  let ?lv = "corridor_level\<lparr>player_x := 6\<rparr>"
  let ?exec = "\<lambda>b. executeProgram_ne ?lv (as_program b) 10000"
  let ?ins = "buildInstructions [Name_FW]"
  have mono: "\<forall>i j :: nat. i \<le> j \<longrightarrow> (0 :: nat) \<le> 0" by simp
  have res: "solve (\<lambda>_. 0) 30000 (\<lambda>_. True) ?lv [Name_FW] [2] = SolveSolved [[Some 1, Some 1]] 2 2"
    by (rule solve_two_forwards)
  have cnt: "instr_count [[Some 1, Some (1::nat)]] = 2"
    by (simp add: instr_count_def slot_count_def)
  from constraint_solver_depth_minimal [OF mono res refl refl]
  obtain d where d: "instr_count [[Some 1, Some 1]] = d"
    and below: "\<forall>d' q. 1 \<le> d' \<and> d' < d \<and> q \<in> set (candidates [2] ?ins d') \<longrightarrow> \<not> solved_by ?exec q"
    by blast
  have d2: "d = 2" using d cnt by simp
  have q: "[[Some 1]] \<in> set (candidates [2] ?ins 1)" unfolding candidates_eval by simp
  have "1 \<le> (1 :: nat) \<and> (1 :: nat) < d \<and> [[Some 1]] \<in> set (candidates [2] ?ins 1)"
    using q d2 by simp
  with below have "\<not> solved_by ?exec [[Some 1]]" by blast
  with res cnt candidates_eval show ?thesis by blast
qed

lemmas short_defs = short_level_def init_state_def corridor_level_def corridor_board_def void_row_def

lemma short_recursive_run:
  "executeProgram short_level [[1, 7]] 10000 = Solved 5"
proof -
  let ?p = "[[1, 7]] :: program"
  let ?s = "init_state short_level ?p"
  let ?b = "set_cell corridor_board 8 5 1"
  have b0: "body ?p ?s = (?s\<lparr>xpos := 6, stack := [7], steps := 1\<rparr>, None)"
    by (simp add: vm_eval short_defs)
  have b1: "body ?p (?s\<lparr>xpos := 6, stack := [7], steps := 1\<rparr>)
      = (?s\<lparr>xpos := 6, stack := [1, 7], steps := 2\<rparr>, None)"
    by (simp add: vm_eval short_defs)
  have b2: "body ?p (?s\<lparr>xpos := 6, stack := [1, 7], steps := 2\<rparr>)
      = (?s\<lparr>xpos := 7, stack := [7], steps := 3\<rparr>, None)"
    by (simp add: vm_eval short_defs)
  have b3: "body ?p (?s\<lparr>xpos := 7, stack := [7], steps := 3\<rparr>)
      = (?s\<lparr>xpos := 7, stack := [1, 7], steps := 4\<rparr>, None)"
    by (simp add: vm_eval short_defs)
  have b4: "body ?p (?s\<lparr>xpos := 7, stack := [1, 7], steps := 4\<rparr>)
      = (?s\<lparr>xpos := 8, stack := [7], steps := 5, board := ?b, stars := 0\<rparr>, None)"
    by (simp add: vm_eval short_defs)
  have b5: "body ?p (?s\<lparr>xpos := 8, stack := [7], steps := 5, board := ?b, stars := 0\<rparr>)
      = (?s\<lparr>xpos := 8, stack := [7], steps := 5, board := ?b, stars := 0\<rparr>, Some RetWon)"
    by (simp add: body_def)
  have "loop ?p 10000 ?s = loop ?p 10000 (?s\<lparr>xpos := 6, stack := [7], steps := 1\<rparr>)"
    by (rule loop_continue [OF _ _ b0]) (simp_all add: init_state_def)
  also have "\<dots> = loop ?p 10000 (?s\<lparr>xpos := 6, stack := [1, 7], steps := 2\<rparr>)"
    by (rule loop_continue [OF _ _ b1]) simp_all
  also have "\<dots> = loop ?p 10000 (?s\<lparr>xpos := 7, stack := [7], steps := 3\<rparr>)"
    by (rule loop_continue [OF _ _ b2]) simp_all
  also have "\<dots> = loop ?p 10000 (?s\<lparr>xpos := 7, stack := [1, 7], steps := 4\<rparr>)"
    by (rule loop_continue [OF _ _ b3]) simp_all
  also have "\<dots> = loop ?p 10000 (?s\<lparr>xpos := 8, stack := [7], steps := 5, board := ?b, stars := 0\<rparr>)"
    by (rule loop_continue [OF _ _ b4]) simp_all
  also have "\<dots> = (?s\<lparr>xpos := 8, stack := [7], steps := 5, board := ?b, stars := 0\<rparr>, RetWon)"
    by (rule loop_exit [OF _ _ b5]) simp_all
  finally show ?thesis
    by (simp add: executeProgram_def result_of_def)
qed

lemma short_fail:
  "executeProgram short_level [[Suc 0]] 10000 = Unsolved"
  "executeProgram short_level [[2]] 10000 = Unsolved"
  "executeProgram short_level [[101]] 10000 = Unsolved"
  "executeProgram short_level [[Suc 0, Suc 0]] 10000 = Unsolved"
  "executeProgram short_level [[Suc 0, 2]] 10000 = Unsolved"
  "executeProgram short_level [[Suc 0, 101]] 10000 = Unsolved"
  "executeProgram short_level [[2, Suc 0]] 10000 = Unsolved"
  "executeProgram short_level [[2, 2]] 10000 = Unsolved"
  "executeProgram short_level [[2, 101]] 10000 = Unsolved"
  "executeProgram short_level [[101, Suc 0]] 10000 = Unsolved"
  "executeProgram short_level [[101, 2]] 10000 = Unsolved"
  "executeProgram short_level [[101, 101]] 10000 = Unsolved"
  by (simp_all add: executeProgram_def result_of_def loop.simps vm_eval short_defs)

lemma short_win: "executeProgram short_level [[Suc 0, Suc 0, Suc 0]] 10000 = Solved 3"
  by (simp add: executeProgram_def result_of_def loop.simps vm_eval short_defs)

lemma progs_1:
  "generatePrograms [Suc 0, 2, 101] [3] (Suc 0) =
      [[[Suc 0]], [[2]], [[101]]]"
  by (simp add: generatePrograms_def genFunc.simps genInstructions.simps Let_def upt_conv_Cons)

lemma progs_2:
  "generatePrograms [Suc 0, 2, 101] [3] 2 =
      [[[Suc 0]], [[2]], [[101]], [[Suc 0, Suc 0]], [[Suc 0, 2]], [[Suc 0, 101]], [[2, Suc 0]],
       [[2, 2]], [[2, 101]], [[101, Suc 0]], [[101, 2]], [[101, 101]]]"
  by (simp add: generatePrograms_def genFunc.simps genInstructions.simps Let_def upt_conv_Cons)

lemma progs_3:
  "generatePrograms [Suc 0, 2, 101] [3] 3 =
      [[[Suc 0]], [[2]], [[101]], [[Suc 0, Suc 0]], [[Suc 0, 2]], [[Suc 0, 101]], [[2, Suc 0]],
       [[2, 2]], [[2, 101]], [[101, Suc 0]], [[101, 2]], [[101, 101]], [[Suc 0, Suc 0, Suc 0]],
       [[Suc 0, Suc 0, 2]], [[Suc 0, Suc 0, 101]], [[Suc 0, 2, Suc 0]], [[Suc 0, 2, 2]],
       [[Suc 0, 2, 101]], [[Suc 0, 101, Suc 0]], [[Suc 0, 101, 2]], [[Suc 0, 101, 101]],
       [[2, Suc 0, Suc 0]], [[2, Suc 0, 2]], [[2, Suc 0, 101]], [[2, 2, Suc 0]], [[2, 2, 2]],
       [[2, 2, 101]], [[2, 101, Suc 0]], [[2, 101, 2]], [[2, 101, 101]], [[101, Suc 0, Suc 0]],
       [[101, Suc 0, 2]], [[101, Suc 0, 101]], [[101, 2, Suc 0]], [[101, 2, 2]],
       [[101, 2, 101]], [[101, 101, Suc 0]], [[101, 101, 2]], [[101, 101, 101]]]"
  by (simp add: generatePrograms_def genFunc.simps genInstructions.simps Let_def upt_conv_Cons)

lemma depths_3: "[Suc 0 ..< 3] = [Suc 0, 2]"
  by (simp add: upt_conv_Cons numeral_eq_Suc)

lemma solver_first:
  "solver_solve (\<lambda>_. 0) 30000 (\<lambda>_. True) random short_level [Name_FW, Name_TL, Name_F0, Name_C1] [3]
     = SolverSolved [[1, 1, 1]] 3 28"
  by (simp add: solver_solve_def buildInstructionSet_def generateInstructionSubsets_def slice_def
      Let_def INST_defs progs_1 progs_2 progs_3 depths_3 short_fail short_win)

lemma subsets_4:
  "[1, 2, 7] \<in> set (generateInstructionSubsets [1, 2, 7, 101, 102, 107] 4 random)"
  by (simp add: generateInstructionSubsets_def slice_def Let_def)

lemma progs_calls: "[[1, 7]] \<in> set (generatePrograms [1, 2, 7] [3] 2)"
  by (simp add: generatePrograms_def genFunc.simps genInstructions.simps Let_def upt_conv_Cons)

lemma instruction_set: "buildInstructionSet [Name_FW, Name_TL, Name_F0, Name_C1] = ([1, 2, 7], [101, 102, 107])"
  by (simp add: buildInstructionSet_def)

text \<open>
  Claim C2 fails for the engine \<open>Solver.solve\<close>, which deepens inside each
  instruction subset. On the corridor with the star three cells ahead, one function of
  length 3 and the instructions forward, turn left, call 0 and condition 1, the first
  subset is forward, turn left and conditional forward; its depths 1 to 3 are searched
  before any other subset, and the engine returns \<open>F0 = [FW, FW, FW]\<close>, the 28th
  program it tests, whatever the random subsets are. The program \<open>F0 = [FW, F0]\<close>
  holds two instructions and solves the level too; the engine generates it at depth 2 of
  the subset forward, turn left, call 0, which comes among the subsets of size 4.
\<close>

theorem solver_first_solution_not_minimal:
  "\<forall>random.
     solver_solve (\<lambda>_. 0) 30000 (\<lambda>_. True) random short_level [Name_FW, Name_TL, Name_F0, Name_C1] [3]
       = SolverSolved [[1, 1, 1]] 3 28
     \<and> buildInstructionSet [Name_FW, Name_TL, Name_F0, Name_C1] = ([1, 2, 7], [101, 102, 107])
     \<and> [1, 2, 7] \<in> set (generateInstructionSubsets [1, 2, 7, 101, 102, 107] 4 random)
     \<and> [[1, 7]] \<in> set (generatePrograms [1, 2, 7] [3] 2)
     \<and> executeProgram short_level [[1, 7]] 10000 = Solved 5"
  using solver_first subsets_4 progs_calls instruction_set short_recursive_run by blast

end
